theory Spec2Isabelle
  imports Main
begin

section \<open>The environment of the allocator\<close>

text \<open>
  The deferred-reclamation allocator of \<^verbatim>\<open>amz/deferred_reclamation_allocator.hpp\<close>
  talks to three collaborators that are not part of it: the steady clock, the thread's
  \<^verbatim>\<open>sleep_until\<close>, and the underlying allocator. They are gathered in a record
  \<open>world\<close> that every operation takes and returns.

  Time points and durations are counted in ticks of \<^verbatim>\<open>std::chrono::steady_clock\<close>
  (unbounded integers: the signed 64-bit tick counter does not overflow within the
  lifetime of a process). Pointers are abstract addresses.
\<close>

type_synonym time_point = int
type_synonym duration = int
type_synonym pointer = nat

text \<open>What an observer of the program can see happen, in the order it happens.\<close>

datatype event =
    Deallocate_called pointer nat time_point
      \<comment> \<open>\<^verbatim>\<open>deallocate(p, n)\<close> was entered when the clock showed the given time\<close>
  | Destroyed pointer nat time_point
      \<comment> \<open>\<^verbatim>\<open>detail::destroy_n(p, n)\<close> ran the destructors of the entry \<open>(p, n)\<close>\<close>
  | Deallocated pointer nat time_point
      \<comment> \<open>\<^verbatim>\<open>allocator_.deallocate(p, n)\<close> gave the entry's storage back\<close>
  | Slept_until time_point time_point
      \<comment> \<open>\<^verbatim>\<open>sleep_until(deadline)\<close> returned when the clock showed the second time\<close>
  | Allocated pointer nat
  | Constructed pointer
  | Bytes_allocated pointer nat
      \<comment> \<open>\<^verbatim>\<open>buffer_allocator_.allocate(count)\<close> returned the pointer\<close>
  | Bytes_deallocated pointer nat
      \<comment> \<open>\<^verbatim>\<open>buffer_allocator_.deallocate(pointer, count)\<close>\<close>

datatype exception = Bad_alloc | Other_exception

datatype alloc_outcome = Succeeds | Throws_in_allocate exception

record world =
  clock :: time_point
    \<comment> \<open>the reading \<^verbatim>\<open>steady_clock::now()\<close> would give\<close>
  delays :: "nat list"
    \<comment> \<open>by how much the clock has advanced at each coming clock reading or wake-up\<close>
  script :: "alloc_outcome list"
    \<comment> \<open>what the coming calls of the underlying \<^verbatim>\<open>allocate\<close> do; success once exhausted\<close>
  live :: "(pointer \<times> nat) list"
    \<comment> \<open>blocks of the underlying allocator not yet given back: pointer and count\<close>
  trace :: "event list"
  sizeof_DelayBuffer :: nat
  sizeof_DelayBufferElement :: nat

definition emit :: "event \<Rightarrow> world \<Rightarrow> world" where
  "emit e w = w\<lparr>trace := trace w @ [e]\<rparr>"

text \<open>
  \<^verbatim>\<open>TimeoutClock::now()\<close>: the clock is monotonic; the environment decides how far it has
  moved since it was last looked at.
\<close>

definition TimeoutClock_now :: "world \<Rightarrow> time_point \<times> world" where
  "TimeoutClock_now w =
     (case delays w of
        [] \<Rightarrow> (clock w, w)
      | d # ds \<Rightarrow> (clock w + int d, w\<lparr>clock := clock w + int d, delays := ds\<rparr>))"

text \<open>
  \<^verbatim>\<open>std::this_thread::sleep_until(deadline)\<close> returns once the clock has reached the
  deadline: at the deadline itself when the wake-up is not late, later otherwise, and
  without waiting when the deadline is already behind.
\<close>

definition sleep_until :: "time_point \<Rightarrow> world \<Rightarrow> world" where
  "sleep_until deadline w =
     (let late = (case delays w of [] \<Rightarrow> 0 | d # ds \<Rightarrow> d);
          woke = max (clock w) deadline + int late
      in emit (Slept_until deadline woke) (w\<lparr>clock := woke, delays := drop 1 (delays w)\<rparr>))"

text \<open>Time passing between two calls of the allocator's user.\<close>

definition time_passes :: "nat \<Rightarrow> world \<Rightarrow> world" where
  "time_passes d w = w\<lparr>clock := clock w + int d\<rparr>"

text \<open>
  The underlying allocator (and its rebinding to \<^verbatim>\<open>char\<close>, which shares its memory
  resource): \<^verbatim>\<open>allocate\<close> throws when the script says so and otherwise returns a
  block that lies beyond every live block; \<^verbatim>\<open>deallocate\<close> gives the block at the
  pointer back, whatever count it is passed.
\<close>

definition fresh_address :: "world \<Rightarrow> pointer" where
  "fresh_address w = Suc (fold max (map (\<lambda>(q, c). q + c) (live w)) 0)"

definition underlying_allocate :: "nat \<Rightarrow> world \<Rightarrow> (exception + pointer) \<times> world" where
  "underlying_allocate count w =
     (case script w of
        Throws_in_allocate e # rest \<Rightarrow> (Inl e, w\<lparr>script := rest\<rparr>)
      | _ \<Rightarrow>
         (let q = fresh_address w
          in (Inr q, w\<lparr>script := drop 1 (script w), live := (q, count) # live w\<rparr>)))"

definition underlying_deallocate :: "pointer \<Rightarrow> nat \<Rightarrow> world \<Rightarrow> world" where
  "underlying_deallocate q count w = w\<lparr>live := filter (\<lambda>(a, c). a \<noteq> q) (live w)\<rparr>"

text \<open>Arithmetic on \<^verbatim>\<open>std::size_t\<close> wraps at 64 bits.\<close>

definition size_t :: "nat \<Rightarrow> nat" where
  "size_t x = x mod 2 ^ 64"

section \<open>The allocator's data\<close>

type_synonym DelayBufferElement = "pointer \<times> nat"

text \<open>
  A \<^verbatim>\<open>DelayBuffer\<close> is a header followed by an array of \<^verbatim>\<open>buffer_capacity_\<close> elements
  whose slots are written one after the other. \<open>elements\<close> lists the slots
  \<open>0, 1, \<dots>\<close> up to the last one written in the buffer's present use; the slots
  after it hold nothing that may be read. \<open>address\<close> is the pointer the byte
  allocator returned for the buffer.
\<close>

record DelayBuffer =
  address :: pointer
  timestamp :: time_point
  elements :: "DelayBufferElement list"

text \<open>
  The members of \<^verbatim>\<open>deferred_reclamation_allocator<Allocator>\<close>. \<open>'u\<close> is the type of
  the underlying allocator; the members keep their names without the trailing
  underscore; \<open>current_buffer\<close> is \<open>None\<close> for \<^verbatim>\<open>nullptr\<close>; the delay list
  has its oldest buffer first; \<open>timeout\<close> is the constructor's argument after
  \<^verbatim>\<open>duration_cast<Duration>\<close>. \<open>nothrow_destructible\<close> stands for the compile-time
  constant \<^verbatim>\<open>std::is_nothrow_destructible<value_type>{}\<close> of the instantiation.
\<close>

record 'u deferred_reclamation_allocator =
  allocator :: 'u
  timeout :: duration
  now :: time_point
  buffer_allocator :: 'u
  buffer_capacity :: nat
  current_buffer_size :: nat
  current_buffer :: "DelayBuffer option"
  delay_list :: "DelayBuffer list"
  nothrow_destructible :: bool

text \<open>
  How a call ends: it returns, or it ends abruptly: by an exception, by
  \<^verbatim>\<open>std::terminate\<close> (an exception leaving a \<^verbatim>\<open>noexcept\<close> function), by a failed
  \<^verbatim>\<open>assert\<close>, or by reading array slots that were never written. An abrupt end
  keeps the world as it was at that moment.
\<close>

datatype abrupt = Throws exception | Terminate | Assertion_failure | Undefined_behaviour

datatype 'a outcome = Returns 'a | Abrupt abrupt world

definition noexcept :: "bool \<Rightarrow> 'a outcome \<Rightarrow> 'a outcome" where
  "noexcept c r =
     (case r of
        Abrupt (Throws e) w \<Rightarrow> if c then Abrupt Terminate w else r
      | _ \<Rightarrow> r)"

section \<open>The private member functions\<close>

definition was_moved_from :: "'u deferred_reclamation_allocator \<Rightarrow> bool" where
  "was_moved_from a = (current_buffer a = None)"

definition current_buffer_full :: "'u deferred_reclamation_allocator \<Rightarrow> bool" where
  "current_buffer_full a = (current_buffer_size a = buffer_capacity a)"

definition current_buffer_empty :: "'u deferred_reclamation_allocator \<Rightarrow> bool" where
  "current_buffer_empty a = (current_buffer_size a = 0)"

text \<open>
  \<^verbatim>\<open>reclaim_buffer_elements(elem, last)\<close>: for each element of the range, destroy the
  objects, then give the storage back. The destructors of \<^verbatim>\<open>value_type\<close> are taken
  not to throw when they run.
\<close>

definition reclaim_element :: "DelayBufferElement \<Rightarrow> world \<Rightarrow> world" where
  "reclaim_element elem w =
     (case elem of (p, n) \<Rightarrow>
        (let w1 = emit (Destroyed p n (clock w)) w
         in emit (Deallocated p n (clock w1)) (underlying_deallocate p n w1)))"

fun reclaim_buffer_elements :: "DelayBufferElement list \<Rightarrow> world \<Rightarrow> world" where
  "reclaim_buffer_elements [] w = w"
| "reclaim_buffer_elements (elem # rest) w = reclaim_buffer_elements rest (reclaim_element elem w)"

text \<open>The range \<^verbatim>\<open>[buffer->elements, buffer->elements + k)\<close>, when all of it was written.\<close>

definition elements_range :: "DelayBuffer \<Rightarrow> nat \<Rightarrow> DelayBufferElement list option" where
  "elements_range buffer k =
     (if k \<le> length (elements buffer) then Some (take k (elements buffer)) else None)"

text \<open>
  \<^verbatim>\<open>current_buffer_push_back(elem)\<close> writes slot \<^verbatim>\<open>current_buffer_size_\<close> and increments
  the size.
\<close>

definition current_buffer_push_back ::
  "DelayBufferElement \<Rightarrow> 'u deferred_reclamation_allocator \<Rightarrow> 'u deferred_reclamation_allocator" where
  "current_buffer_push_back elem a =
     a\<lparr>current_buffer :=
          map_option (\<lambda>b. b\<lparr>elements := take (current_buffer_size a) (elements b) @ [elem]\<rparr>)
            (current_buffer a),
       current_buffer_size := current_buffer_size a + 1\<rparr>"

text \<open>
  \<^verbatim>\<open>buffer_new()\<close> asks the byte allocator for
  \<^verbatim>\<open>sizeof(DelayBuffer) + buffer_capacity_ * sizeof(DelayBufferElement)\<close> bytes and
  constructs a header there, with a value-initialised timestamp.
\<close>

definition buffer_new ::
  "'u deferred_reclamation_allocator \<Rightarrow> world \<Rightarrow> (exception + DelayBuffer) \<times> world" where
  "buffer_new a w =
     (let buffer_element_bytes = size_t (buffer_capacity a * sizeof_DelayBufferElement w);
          count = size_t (sizeof_DelayBuffer w + buffer_element_bytes)
      in case underlying_allocate count w of
           (Inl e, w1) \<Rightarrow> (Inl e, w1)
         | (Inr bytes, w1) \<Rightarrow>
             (Inr \<lparr>address = bytes, timestamp = 0, elements = []\<rparr>,
              emit (Bytes_allocated bytes count) w1))"

text \<open>
  \<^verbatim>\<open>buffer_delete(buffer)\<close> destroys the header and calls
  \<^verbatim>\<open>buffer_allocator_.deallocate(bytes, buffer_capacity_)\<close>.
\<close>

definition buffer_delete ::
  "'u deferred_reclamation_allocator \<Rightarrow> DelayBuffer \<Rightarrow> world \<Rightarrow> world" where
  "buffer_delete a buffer w =
     emit (Bytes_deallocated (address buffer) (buffer_capacity a))
       (underlying_deallocate (address buffer) (buffer_capacity a) w)"

text \<open>
  \<^verbatim>\<open>purge_delay_list_and_reuse_existing_buffer()\<close>: the loop over the delay list, with
  the local \<^verbatim>\<open>reuse\<close>; it returns \<^verbatim>\<open>reuse\<close> and what is left of the list.
\<close>

fun purge_and_reuse_loop ::
  "'u deferred_reclamation_allocator \<Rightarrow> DelayBuffer option \<Rightarrow> DelayBuffer list \<Rightarrow> world
     \<Rightarrow> (DelayBuffer option \<times> DelayBuffer list \<times> world) outcome" where
  "purge_and_reuse_loop a reuse [] w = Returns (reuse, [], w)"
| "purge_and_reuse_loop a reuse (oldest # rest) w =
     (if now a \<le> timestamp oldest + timeout a then Returns (reuse, oldest # rest, w)
      else
        (case elements_range oldest (buffer_capacity a) of
           None \<Rightarrow> Abrupt Undefined_behaviour w
         | Some elems \<Rightarrow>
             (let w1 = reclaim_buffer_elements elems w
              in case reuse of
                   None \<Rightarrow> purge_and_reuse_loop a (Some oldest) rest w1
                 | Some kept \<Rightarrow> purge_and_reuse_loop a reuse rest (buffer_delete a oldest w1))))"

definition purge_delay_list_and_reuse_existing_buffer ::
  "world \<times> 'u deferred_reclamation_allocator
     \<Rightarrow> (DelayBuffer option \<times> world \<times> 'u deferred_reclamation_allocator) outcome" where
  "purge_delay_list_and_reuse_existing_buffer s =
     (case s of (w, a) \<Rightarrow>
        (case purge_and_reuse_loop a None (delay_list a) w of
           Abrupt x w1 \<Rightarrow> Abrupt x w1
         | Returns (reuse, rest, w1) \<Rightarrow> Returns (reuse, w1, a\<lparr>delay_list := rest\<rparr>)))"

section \<open>The public member functions\<close>

datatype purge_mode = opportunistic | exhaustive

text \<open>
  The loop of \<^verbatim>\<open>purge(Flavor)\<close>, after \<^verbatim>\<open>now_\<close> was refreshed. \<open>t\<close> is \<^verbatim>\<open>now_\<close>,
  which the exhaustive flavour moves to each deadline it has slept until.
  \<^verbatim>\<open>reclaim_full_buffer\<close> is the disposer: it reclaims the \<^verbatim>\<open>buffer_capacity_\<close>
  elements of the buffer and deletes the buffer.
\<close>

definition reclaim_full_buffer ::
  "'u deferred_reclamation_allocator \<Rightarrow> DelayBuffer \<Rightarrow> world \<Rightarrow> world outcome" where
  "reclaim_full_buffer a buffer w =
     (case elements_range buffer (buffer_capacity a) of
        None \<Rightarrow> Abrupt Undefined_behaviour w
      | Some elems \<Rightarrow> Returns (buffer_delete a buffer (reclaim_buffer_elements elems w)))"

fun purge_loop ::
  "purge_mode \<Rightarrow> 'u deferred_reclamation_allocator \<Rightarrow> time_point \<Rightarrow> DelayBuffer list \<Rightarrow> world
     \<Rightarrow> (time_point \<times> DelayBuffer list \<times> world) outcome" where
  "purge_loop flavor a t [] w = Returns (t, [], w)"
| "purge_loop flavor a t (oldest # rest) w =
     (let ready_to_delete = timestamp oldest + timeout a
      in if t > ready_to_delete then
           (case reclaim_full_buffer a oldest w of
              Abrupt x w1 \<Rightarrow> Abrupt x w1
            | Returns w1 \<Rightarrow> purge_loop flavor a t rest w1)
         else
           (case flavor of
              opportunistic \<Rightarrow> Returns (t, oldest # rest, w)
            | exhaustive \<Rightarrow>
                (case reclaim_full_buffer a oldest (sleep_until ready_to_delete w) of
                   Abrupt x w1 \<Rightarrow> Abrupt x w1
                 | Returns w1 \<Rightarrow> purge_loop flavor a ready_to_delete rest w1)))"

definition purge ::
  "purge_mode \<Rightarrow> world \<times> 'u deferred_reclamation_allocator
     \<Rightarrow> (world \<times> 'u deferred_reclamation_allocator) outcome" where
  "purge flavor s =
     (case s of (w, a) \<Rightarrow>
        noexcept (nothrow_destructible a)
          (if was_moved_from a then Abrupt Assertion_failure w
           else
             (case TimeoutClock_now w of (t, w1) \<Rightarrow>
                (case purge_loop flavor a t (delay_list a) w1 of
                   Abrupt x w2 \<Rightarrow> Abrupt x w2
                 | Returns (t2, rest, w2) \<Rightarrow> Returns (w2, a\<lparr>now := t2, delay_list := rest\<rparr>)))))"

text \<open>
  The constructors. Each reads the clock for \<^verbatim>\<open>now_\<close> and allocates the first
  current buffer with \<^verbatim>\<open>buffer_new()\<close>; an exception of the underlying allocator
  leaves the constructor. The converting copy constructor takes from the other
  allocator its underlying allocator (\<open>convert\<close> constructs an \<^verbatim>\<open>Allocator\<close> from an
  \<^verbatim>\<open>OtherAllocator\<close>), its timeout and its capacity, and nothing else; the copy
  constructor delegates to it. The move constructor takes the current buffer and
  the delay list too and leaves the other allocator with a null current buffer.
\<close>

definition construct_from ::
  "'u \<Rightarrow> duration \<Rightarrow> nat \<Rightarrow> bool \<Rightarrow> world \<Rightarrow> (world \<times> 'u deferred_reclamation_allocator) outcome" where
  "construct_from underlying tmo delay_buffer_size nothrow w =
     (case TimeoutClock_now w of (t, w1) \<Rightarrow>
        (let a = \<lparr>allocator = underlying, timeout = tmo, now = t,
                  buffer_allocator = underlying, buffer_capacity = delay_buffer_size,
                  current_buffer_size = 0, current_buffer = None, delay_list = [],
                  nothrow_destructible = nothrow\<rparr>
         in if \<not> delay_buffer_size \<ge> 1 then Abrupt Assertion_failure w1
            else
              (case buffer_new a w1 of
                 (Inl e, w2) \<Rightarrow> Abrupt (Throws e) w2
               | (Inr buffer, w2) \<Rightarrow> Returns (w2, a\<lparr>current_buffer := Some buffer\<rparr>))))"

definition converting_copy_construct ::
  "('v \<Rightarrow> 'u) \<Rightarrow> bool \<Rightarrow> 'v deferred_reclamation_allocator \<Rightarrow> world
     \<Rightarrow> (world \<times> 'u deferred_reclamation_allocator) outcome" where
  "converting_copy_construct convert nothrow other w =
     (case TimeoutClock_now w of (t, w1) \<Rightarrow>
        (let a = \<lparr>allocator = convert (allocator other), timeout = timeout other, now = t,
                  buffer_allocator = convert (buffer_allocator other),
                  buffer_capacity = buffer_capacity other,
                  current_buffer_size = 0, current_buffer = None, delay_list = [],
                  nothrow_destructible = nothrow\<rparr>
         in case buffer_new a w1 of
              (Inl e, w2) \<Rightarrow> Abrupt (Throws e) w2
            | (Inr buffer, w2) \<Rightarrow> Returns (w2, a\<lparr>current_buffer := Some buffer\<rparr>)))"

definition copy_construct ::
  "'u deferred_reclamation_allocator \<Rightarrow> world \<Rightarrow> (world \<times> 'u deferred_reclamation_allocator) outcome" where
  "copy_construct other w =
     converting_copy_construct (\<lambda>u. u) (nothrow_destructible other) other w"

definition move_construct ::
  "'u deferred_reclamation_allocator \<Rightarrow> world
     \<Rightarrow> world \<times> 'u deferred_reclamation_allocator \<times> 'u deferred_reclamation_allocator" where
  "move_construct other w =
     (case TimeoutClock_now w of (t, w1) \<Rightarrow>
        (w1,
         \<lparr>allocator = allocator other, timeout = timeout other, now = t,
          buffer_allocator = buffer_allocator other, buffer_capacity = buffer_capacity other,
          current_buffer_size = current_buffer_size other,
          current_buffer = current_buffer other, delay_list = delay_list other,
          nothrow_destructible = nothrow_destructible other\<rparr>,
         other\<lparr>current_buffer := None, delay_list := []\<rparr>))"

text \<open>\<^verbatim>\<open>allocate\<close>, \<^verbatim>\<open>construct\<close> and \<^verbatim>\<open>destroy\<close>.\<close>

definition allocate ::
  "nat \<Rightarrow> world \<times> 'u deferred_reclamation_allocator
     \<Rightarrow> (pointer \<times> world \<times> 'u deferred_reclamation_allocator) outcome" where
  "allocate n s =
     (case s of (w, a) \<Rightarrow>
        if was_moved_from a then Abrupt Assertion_failure w
        else
          (case underlying_allocate n w of
             (Inl e, w1) \<Rightarrow> Abrupt (Throws e) w1
           | (Inr p, w1) \<Rightarrow> Returns (p, emit (Allocated p n) w1, a)))"

definition construct ::
  "pointer \<Rightarrow> world \<times> 'u deferred_reclamation_allocator
     \<Rightarrow> (world \<times> 'u deferred_reclamation_allocator) outcome" where
  "construct p s =
     (case s of (w, a) \<Rightarrow>
        if was_moved_from a then Abrupt Assertion_failure w
        else Returns (emit (Constructed p) w, a))"

definition destroy ::
  "pointer \<Rightarrow> world \<times> 'u deferred_reclamation_allocator
     \<Rightarrow> (world \<times> 'u deferred_reclamation_allocator) outcome" where
  "destroy p s =
     (case s of (w, a) \<Rightarrow>
        if was_moved_from a then Abrupt Assertion_failure w else Returns (w, a))"

text \<open>
  \<^verbatim>\<open>deallocate(p, n)\<close>. \<open>seal\<close> is step 1 of its body (timestamp the full buffer and
  put it on the delay list); \<open>start_buffer\<close> is its end (the last \<^verbatim>\<open>assert\<close> and the
  reset of the size); \<open>recover\<close> is the handler of \<^verbatim>\<open>std::bad_alloc\<close>.
\<close>

definition seal ::
  "world \<times> 'u deferred_reclamation_allocator \<Rightarrow> world \<times> 'u deferred_reclamation_allocator" where
  "seal s =
     (case s of (w, a) \<Rightarrow>
        (case TimeoutClock_now w of (t, w1) \<Rightarrow>
           (w1, a\<lparr>now := t, current_buffer := None,
                  delay_list := delay_list a
                    @ (case current_buffer a of None \<Rightarrow> [] | Some b \<Rightarrow> [b\<lparr>timestamp := t\<rparr>])\<rparr>)))"

definition start_buffer ::
  "DelayBuffer option \<Rightarrow> world \<times> 'u deferred_reclamation_allocator
     \<Rightarrow> (world \<times> 'u deferred_reclamation_allocator) outcome" where
  "start_buffer buffer s =
     (case s of (w, a) \<Rightarrow>
        (case buffer of
           None \<Rightarrow> Abrupt Assertion_failure w
         | Some b \<Rightarrow> Returns (w, a\<lparr>current_buffer := Some b, current_buffer_size := 0\<rparr>)))"

definition recover ::
  "world \<times> 'u deferred_reclamation_allocator
     \<Rightarrow> (world \<times> 'u deferred_reclamation_allocator) outcome" where
  "recover s =
     (case s of (w, a) \<Rightarrow>
        (case delay_list a of
           [] \<Rightarrow> Abrupt Assertion_failure w
         | oldest # rest \<Rightarrow>
             (case TimeoutClock_now (sleep_until (timestamp oldest + timeout a) w) of
                (t, w1) \<Rightarrow>
                  (case purge_delay_list_and_reuse_existing_buffer (w1, a\<lparr>now := t\<rparr>) of
                     Abrupt x w2 \<Rightarrow> Abrupt x w2
                   | Returns (reuse, w2, a2) \<Rightarrow> start_buffer reuse (w2, a2)))))"

definition deallocate_body ::
  "pointer \<Rightarrow> nat \<Rightarrow> world \<times> 'u deferred_reclamation_allocator
     \<Rightarrow> (world \<times> 'u deferred_reclamation_allocator) outcome" where
  "deallocate_body p n s =
     (case s of (w, a) \<Rightarrow>
        if was_moved_from a then Abrupt Assertion_failure w
        else if current_buffer_full a then Abrupt Assertion_failure w
        else
          (let a1 = current_buffer_push_back (p, n) a
           in if current_buffer_full a1 then
                (case purge_delay_list_and_reuse_existing_buffer (seal (w, a1)) of
                   Abrupt x w2 \<Rightarrow> Abrupt x w2
                 | Returns (Some reuse, w2, a2) \<Rightarrow> start_buffer (Some reuse) (w2, a2)
                 | Returns (None, w2, a2) \<Rightarrow>
                     (case buffer_new a2 w2 of
                        (Inr buffer, w3) \<Rightarrow> start_buffer (Some buffer) (w3, a2)
                      | (Inl Bad_alloc, w3) \<Rightarrow> recover (w3, a2)
                      | (Inl Other_exception, w3) \<Rightarrow> Abrupt (Throws Other_exception) w3))
              else Returns (w, a1)))"

definition deallocate ::
  "pointer \<Rightarrow> nat \<Rightarrow> world \<times> 'u deferred_reclamation_allocator
     \<Rightarrow> (world \<times> 'u deferred_reclamation_allocator) outcome" where
  "deallocate p n s =
     (case s of (w, a) \<Rightarrow>
        noexcept (nothrow_destructible a)
          (deallocate_body p n (emit (Deallocate_called p n (clock w)) w, a)))"

text \<open>
  The destructor. The local \<^verbatim>\<open>now\<close> is \<open>t\<close>; the result is the world, the allocator
  being gone.
\<close>

definition destructor :: "world \<times> 'u deferred_reclamation_allocator \<Rightarrow> world outcome" where
  "destructor s =
     (case s of (w, a) \<Rightarrow>
        noexcept (nothrow_destructible a)
          (case current_buffer a of
             None \<Rightarrow> Returns w
           | Some b \<Rightarrow>
               (case TimeoutClock_now w of (t, w1) \<Rightarrow>
                  (let stamped = b\<lparr>timestamp := t\<rparr>
                   in case purge exhaustive (w1, a\<lparr>current_buffer := Some stamped\<rparr>) of
                        Abrupt x w2 \<Rightarrow> Abrupt x w2
                      | Returns (w2, a2) \<Rightarrow>
                          if delay_list a2 \<noteq> [] then Abrupt Assertion_failure w2
                          else if \<not> current_buffer_empty a2 then
                            (let ready_to_delete = timestamp stamped + timeout a2;
                                 w3 = (if t \<le> ready_to_delete
                                       then sleep_until ready_to_delete w2 else w2)
                             in case elements_range stamped (current_buffer_size a2) of
                                  None \<Rightarrow> Abrupt Undefined_behaviour w3
                                | Some elems \<Rightarrow>
                                    Returns (buffer_delete a2 stamped
                                               (reclaim_buffer_elements elems w3)))
                          else Returns (buffer_delete a2 stamped w2)))))"

text \<open>
  \<^verbatim>\<open>operator==\<close> and \<^verbatim>\<open>operator!=\<close>; \<open>underlying_equal\<close> is \<^verbatim>\<open>operator==\<close> of the
  underlying allocator.
\<close>

definition equal_to ::
  "('u \<Rightarrow> 'u \<Rightarrow> bool) \<Rightarrow> 'u deferred_reclamation_allocator \<Rightarrow> 'u deferred_reclamation_allocator \<Rightarrow> bool" where
  "equal_to underlying_equal a b =
     (timeout a = timeout b \<and> underlying_equal (allocator a) (allocator b))"

definition not_equal_to ::
  "('u \<Rightarrow> 'u \<Rightarrow> bool) \<Rightarrow> 'u deferred_reclamation_allocator \<Rightarrow> 'u deferred_reclamation_allocator \<Rightarrow> bool" where
  "not_equal_to underlying_equal a b = (\<not> equal_to underlying_equal a b)"

text \<open>A user of one allocator: a sequence of calls, with time passing in between.\<close>

datatype call =
    Allocate nat
  | Construct pointer
  | Destroy pointer
  | Deallocate pointer nat
  | Purge purge_mode
  | Wait nat

definition perform ::
  "call \<Rightarrow> world \<times> 'u deferred_reclamation_allocator
     \<Rightarrow> (world \<times> 'u deferred_reclamation_allocator) outcome" where
  "perform c s =
     (case c of
        Allocate n \<Rightarrow>
          (case allocate n s of Abrupt x w \<Rightarrow> Abrupt x w | Returns (p, s1) \<Rightarrow> Returns s1)
      | Construct p \<Rightarrow> construct p s
      | Destroy p \<Rightarrow> destroy p s
      | Deallocate p n \<Rightarrow> deallocate p n s
      | Purge flavor \<Rightarrow> purge flavor s
      | Wait d \<Rightarrow> Returns (time_passes d (fst s), snd s))"

fun perform_all ::
  "call list \<Rightarrow> world \<times> 'u deferred_reclamation_allocator
     \<Rightarrow> (world \<times> 'u deferred_reclamation_allocator) outcome" where
  "perform_all [] s = Returns s"
| "perform_all (c # cs) s =
     (case perform c s of Abrupt x w \<Rightarrow> Abrupt x w | Returns s1 \<Rightarrow> perform_all cs s1)"

section \<open>Reading the trace; consistent states; an example world\<close>

text \<open>The entries whose destructors ran, and the deadlines slept until, in order.\<close>

definition destroyed_entries :: "event list \<Rightarrow> DelayBufferElement list" where
  "destroyed_entries es =
     concat (map (\<lambda>e. case e of Destroyed p n t \<Rightarrow> [(p, n)] | _ \<Rightarrow> []) es)"

definition slept_deadlines :: "event list \<Rightarrow> time_point list" where
  "slept_deadlines es =
     concat (map (\<lambda>e. case e of Slept_until d t \<Rightarrow> [d] | _ \<Rightarrow> []) es)"

text \<open>The entries whose destructors ran, each with the time at which they ran.\<close>

definition destroyed_at :: "event list \<Rightarrow> (DelayBufferElement \<times> time_point) list" where
  "destroyed_at es =
     concat (map (\<lambda>e. case e of Destroyed p n t \<Rightarrow> [((p, n), t)] | _ \<Rightarrow> []) es)"

definition deadline :: "'u deferred_reclamation_allocator \<Rightarrow> DelayBuffer \<Rightarrow> time_point" where
  "deadline a buffer = timestamp buffer + timeout a"

text \<open>
  The state invariant of the allocator: a current buffer that is not full, a delay
  list of full buffers whose timestamps do not decrease.
\<close>

definition state_invariant :: "'u deferred_reclamation_allocator \<Rightarrow> bool" where
  "state_invariant a =
     (current_buffer a \<noteq> None
      \<and> current_buffer_size a < buffer_capacity a
      \<and> list_all (\<lambda>b. length (elements b) = buffer_capacity a) (delay_list a)
      \<and> sorted (map timestamp (delay_list a)))"

text \<open>
  What holds in addition between the allocator and its world: the written slots of
  the current buffer cover its size, and no timestamp is ahead of the clock.
\<close>

definition consistent :: "world \<Rightarrow> 'u deferred_reclamation_allocator \<Rightarrow> bool" where
  "consistent w a =
     (state_invariant a
      \<and> (case current_buffer a of
           None \<Rightarrow> False
         | Some b \<Rightarrow> current_buffer_size a \<le> length (elements b))
      \<and> list_all (\<lambda>b. timestamp b \<le> clock w) (delay_list a))"

text \<open>
  What the delay list has to satisfy for the invariant to be kept by the next call:
  full buffers, timestamps that do not decrease, none of them ahead of the clock.
\<close>

definition sealed_ok :: "world \<Rightarrow> nat \<Rightarrow> DelayBuffer list \<Rightarrow> bool" where
  "sealed_ok w cap dl =
     (list_all (\<lambda>b. length (elements b) = cap) dl
      \<and> sorted (map timestamp dl)
      \<and> list_all (\<lambda>b. timestamp b \<le> clock w) dl)"

text \<open>
  The calls of \<^verbatim>\<open>deallocate\<close>, each with its time. An entry was requested by a
  time limit when \<^verbatim>\<open>deallocate\<close> was called for it at or before that time. The
  lifetimes in a trace respect a timeout when every destroyed entry was requested
  at least the timeout before its destruction.
\<close>

definition called_at :: "event list \<Rightarrow> (DelayBufferElement \<times> time_point) list" where
  "called_at es =
     concat (map (\<lambda>e. case e of Deallocate_called p n t \<Rightarrow> [((p, n), t)] | _ \<Rightarrow> []) es)"

definition requested_by :: "event list \<Rightarrow> time_point \<Rightarrow> DelayBufferElement \<Rightarrow> bool" where
  "requested_by es limit e = (\<exists>t0. (e, t0) \<in> set (called_at es) \<and> t0 \<le> limit)"

definition lifetimes_ok :: "duration \<Rightarrow> event list \<Rightarrow> bool" where
  "lifetimes_ok tmo es = (\<forall>(e, u) \<in> set (destroyed_at es). requested_by es (u - tmo) e)"

text \<open>
  The stronger reading: every destroyed entry was requested strictly more than the
  timeout before its destruction (times are integers, so \<open>t0 \<le> u - tmo - 1\<close> is
  \<open>t0 + tmo < u\<close>).
\<close>

definition lifetimes_exceed :: "duration \<Rightarrow> event list \<Rightarrow> bool" where
  "lifetimes_exceed tmo es =
     (\<forall>(e, u) \<in> set (destroyed_at es). requested_by es (u - tmo - 1) e)"

text \<open>The trace at the end of a run, however it ends.\<close>

definition final_trace :: "(world \<times> 'u deferred_reclamation_allocator) outcome \<Rightarrow> event list" where
  "final_trace r = (case r of Returns (w, a) \<Rightarrow> trace w | Abrupt x w \<Rightarrow> trace w)"

text \<open>
  What the pending entries must satisfy for the lifetimes to stay respected: the
  entries of the current buffer were requested by now, those of a sealed buffer by
  its timestamp.
\<close>

definition pending_ok :: "world \<Rightarrow> 'u deferred_reclamation_allocator \<Rightarrow> bool" where
  "pending_ok w a =
     ((case current_buffer a of
         None \<Rightarrow> True
       | Some b \<Rightarrow> \<forall>e \<in> set (take (current_buffer_size a) (elements b)).
                    requested_by (trace w) (clock w) e)
      \<and> (\<forall>b \<in> set (delay_list a). \<forall>e \<in> set (elements b).
            requested_by (trace w) (timestamp b) e))"

definition sealed_guarded :: "world \<Rightarrow> 'u deferred_reclamation_allocator \<Rightarrow> bool" where
  "sealed_guarded w a =
     ((\<forall>b \<in> set (delay_list a). \<forall>e \<in> set (elements b).
          requested_by (trace w) (timestamp b) e)
      \<and> lifetimes_ok (timeout a) (trace w))"

definition guarded :: "world \<Rightarrow> 'u deferred_reclamation_allocator \<Rightarrow> bool" where
  "guarded w a = (pending_ok w a \<and> lifetimes_ok (timeout a) (trace w))"

text \<open>The buffers an allocator holds: its current buffer and those on its delay list.\<close>

definition buffers_of :: "'u deferred_reclamation_allocator \<Rightarrow> DelayBuffer list" where
  "buffers_of a = (case current_buffer a of None \<Rightarrow> [] | Some b \<Rightarrow> [b]) @ delay_list a"

text \<open>
  A world to run examples in: the clock at 0 and never late, an allocator that never
  fails, and the sizes of an LP64 platform with raw pointers.
\<close>

definition example_world :: world where
  "example_world =
     \<lparr>clock = 0, delays = [], script = [], live = [], trace = [],
      sizeof_DelayBuffer = 16, sizeof_DelayBufferElement = 16\<rparr>"

text \<open>
  An allocator of capacity 1 and timeout 10 as its constructor leaves it in the
  example world, and the world it leaves.
\<close>

definition just_constructed :: "world \<times> unit deferred_reclamation_allocator" where
  "just_constructed =
     (\<lparr>clock = 0, delays = [], script = [], live = [(1, 32)],
       trace = [Bytes_allocated 1 32],
       sizeof_DelayBuffer = 16, sizeof_DelayBufferElement = 16\<rparr>,
      \<lparr>allocator = (), timeout = 10, now = 0, buffer_allocator = (), buffer_capacity = 1,
       current_buffer_size = 0,
       current_buffer = Some \<lparr>address = 1, timestamp = 0, elements = []\<rparr>,
       delay_list = [], nothrow_destructible = True\<rparr>)"

text \<open>
  The state a user reaches who constructs an allocator of capacity 1 and timeout 10
  in the example world, deallocates one object, waits 5 ticks, deallocates another
  and waits 7 ticks: two sealed buffers, stamped 0 and 5, and the clock at 12.
\<close>

definition two_sealed_buffers :: "world \<times> unit deferred_reclamation_allocator" where
  "two_sealed_buffers =
     (\<lparr>clock = 12, delays = [], script = [],
       live = [(67, 32), (34, 32), (1, 32)],
       trace = [Bytes_allocated 1 32, Deallocate_called 1000 1 0, Bytes_allocated 34 32,
                Deallocate_called 1001 1 5, Bytes_allocated 67 32],
       sizeof_DelayBuffer = 16, sizeof_DelayBufferElement = 16\<rparr>,
      \<lparr>allocator = (), timeout = 10, now = 5, buffer_allocator = (), buffer_capacity = 1,
       current_buffer_size = 0,
       current_buffer = Some \<lparr>address = 67, timestamp = 0, elements = []\<rparr>,
       delay_list = [\<lparr>address = 1, timestamp = 0, elements = [(1000, 1)]\<rparr>,
                     \<lparr>address = 34, timestamp = 5, elements = [(1001, 1)]\<rparr>],
       nothrow_destructible = True\<rparr>)"

text \<open>
  The state a user reaches who constructs an allocator of capacity 2 and timeout 10
  in the example world, deallocates one object and waits 12 ticks: one entry in
  the current buffer, which was not sealed.
\<close>

definition one_unsealed_entry :: "world \<times> unit deferred_reclamation_allocator" where
  "one_unsealed_entry =
     (\<lparr>clock = 12, delays = [], script = [], live = [(1, 48)],
       trace = [Bytes_allocated 1 48, Deallocate_called 1000 1 0],
       sizeof_DelayBuffer = 16, sizeof_DelayBufferElement = 16\<rparr>,
      \<lparr>allocator = (), timeout = 10, now = 0, buffer_allocator = (), buffer_capacity = 2,
       current_buffer_size = 1,
       current_buffer = Some \<lparr>address = 1, timestamp = 0, elements = [(1000, 1)]\<rparr>,
       delay_list = [], nothrow_destructible = True\<rparr>)"

section \<open>Effects of the primitives\<close>

lemma emit_fields [simp]:
  "clock (emit e w) = clock w" "delays (emit e w) = delays w" "script (emit e w) = script w"
  "live (emit e w) = live w" "trace (emit e w) = trace w @ [e]"
  "sizeof_DelayBuffer (emit e w) = sizeof_DelayBuffer w"
  "sizeof_DelayBufferElement (emit e w) = sizeof_DelayBufferElement w"
  by (simp_all add: emit_def)

lemma now_fst: "fst (TimeoutClock_now w) = clock (snd (TimeoutClock_now w))"
  by (simp add: TimeoutClock_now_def split: list.split)

lemma now_clock: "clock w \<le> clock (snd (TimeoutClock_now w))"
  by (simp add: TimeoutClock_now_def split: list.split)

lemma now_frame [simp]:
  "trace (snd (TimeoutClock_now w)) = trace w"
  "live (snd (TimeoutClock_now w)) = live w"
  "script (snd (TimeoutClock_now w)) = script w"
  "sizeof_DelayBuffer (snd (TimeoutClock_now w)) = sizeof_DelayBuffer w"
  "sizeof_DelayBufferElement (snd (TimeoutClock_now w)) = sizeof_DelayBufferElement w"
  by (simp_all add: TimeoutClock_now_def split: list.split)

lemma sleep_until_clock: "clock w \<le> clock (sleep_until d w)" "d \<le> clock (sleep_until d w)"
  by (simp_all add: sleep_until_def Let_def)

lemma sleep_until_trace [simp]:
  "trace (sleep_until d w) = trace w @ [Slept_until d (clock (sleep_until d w))]"
  by (simp add: sleep_until_def Let_def)

lemma destroyed_entries_append [simp]:
  "destroyed_entries (xs @ ys) = destroyed_entries xs @ destroyed_entries ys"
  by (simp add: destroyed_entries_def)

lemma slept_deadlines_append [simp]:
  "slept_deadlines (xs @ ys) = slept_deadlines xs @ slept_deadlines ys"
  by (simp add: slept_deadlines_def)

lemma destroyed_entries_simps [simp]:
  "destroyed_entries [] = []"
  "destroyed_entries (e # es)
     = (case e of Destroyed p n t \<Rightarrow> [(p, n)] | _ \<Rightarrow> []) @ destroyed_entries es"
  by (simp_all add: destroyed_entries_def)

lemma slept_deadlines_simps [simp]:
  "slept_deadlines [] = []"
  "slept_deadlines (e # es)
     = (case e of Slept_until d t \<Rightarrow> [d] | _ \<Rightarrow> []) @ slept_deadlines es"
  by (simp_all add: slept_deadlines_def)

lemma reclaim_element_effect [simp]:
  "clock (reclaim_element elem w) = clock w"
  "delays (reclaim_element elem w) = delays w"
  "script (reclaim_element elem w) = script w"
  "destroyed_entries (trace (reclaim_element elem w)) = destroyed_entries (trace w) @ [elem]"
  "slept_deadlines (trace (reclaim_element elem w)) = slept_deadlines (trace w)"
  by (simp_all add: reclaim_element_def underlying_deallocate_def split: prod.split)

lemma reclaim_buffer_elements_effect [simp]:
  "clock (reclaim_buffer_elements elems w) = clock w"
  "delays (reclaim_buffer_elements elems w) = delays w"
  "script (reclaim_buffer_elements elems w) = script w"
  "destroyed_entries (trace (reclaim_buffer_elements elems w)) = destroyed_entries (trace w) @ elems"
  "slept_deadlines (trace (reclaim_buffer_elements elems w)) = slept_deadlines (trace w)"
  by (induction elems arbitrary: w) simp_all

lemma buffer_delete_effect [simp]:
  "clock (buffer_delete a b w) = clock w"
  "delays (buffer_delete a b w) = delays w"
  "script (buffer_delete a b w) = script w"
  "destroyed_entries (trace (buffer_delete a b w)) = destroyed_entries (trace w)"
  "slept_deadlines (trace (buffer_delete a b w)) = slept_deadlines (trace w)"
  by (simp_all add: buffer_delete_def underlying_deallocate_def)

lemma elements_range_full:
  "length (elements b) = k \<Longrightarrow> elements_range b k = Some (elements b)"
  by (simp add: elements_range_def)

section \<open>The loop of purge\<close>

lemma purge_loop_opportunistic:
  assumes "list_all (\<lambda>b. length (elements b) = buffer_capacity a) dl"
  shows "\<exists>w'. purge_loop opportunistic a t dl w
           = Returns (t, dropWhile (\<lambda>b. t > deadline a b) dl, w')
         \<and> clock w' = clock w \<and> delays w' = delays w
         \<and> destroyed_entries (trace w')
             = destroyed_entries (trace w)
               @ concat (map elements (takeWhile (\<lambda>b. t > deadline a b) dl))
         \<and> slept_deadlines (trace w') = slept_deadlines (trace w)"
  using assms
proof (induction dl arbitrary: w)
  case Nil
  then show ?case by simp
next
  case (Cons oldest rest)
  show ?case
  proof (cases "t > deadline a oldest")
    case True
    let ?w1 = "buffer_delete a oldest (reclaim_buffer_elements (elements oldest) w)"
    from Cons.prems have full: "length (elements oldest) = buffer_capacity a"
      and rest: "list_all (\<lambda>b. length (elements b) = buffer_capacity a) rest" by simp_all
    from Cons.IH [OF rest, of ?w1] obtain w' where
      "purge_loop opportunistic a t rest ?w1 = Returns (t, dropWhile (\<lambda>b. t > deadline a b) rest, w')"
      "clock w' = clock ?w1" "delays w' = delays ?w1"
      "destroyed_entries (trace w') = destroyed_entries (trace ?w1)
               @ concat (map elements (takeWhile (\<lambda>b. t > deadline a b) rest))"
      "slept_deadlines (trace w') = slept_deadlines (trace ?w1)" by blast
    with True full show ?thesis
      by (simp add: deadline_def reclaim_full_buffer_def elements_range_full)
  next
    case False
    then show ?thesis by (simp add: deadline_def)
  qed
qed

lemma dropWhile_sorted_deadline:
  assumes "sorted (map timestamp (oldest # rest))"
  shows "dropWhile (\<lambda>b. deadline a oldest > deadline a b) rest = rest"
proof (cases rest)
  case Nil then show ?thesis by simp
next
  case (Cons b bs)
  with assms have "timestamp oldest \<le> timestamp b" by simp
  with Cons show ?thesis by (simp add: deadline_def)
qed

lemma purge_loop_exhaustive:
  assumes "list_all (\<lambda>b. length (elements b) = buffer_capacity a) dl"
    and "sorted (map timestamp dl)"
  shows "\<exists>t' w'. purge_loop exhaustive a t dl w = Returns (t', [], w')
         \<and> clock w \<le> clock w'
         \<and> destroyed_entries (trace w')
             = destroyed_entries (trace w) @ concat (map elements dl)
         \<and> slept_deadlines (trace w')
             = slept_deadlines (trace w)
               @ map (deadline a) (dropWhile (\<lambda>b. t > deadline a b) dl)"
  using assms
proof (induction dl arbitrary: w t)
  case Nil
  then show ?case by simp
next
  case (Cons oldest rest)
  from Cons.prems have full: "length (elements oldest) = buffer_capacity a"
    and rest: "list_all (\<lambda>b. length (elements b) = buffer_capacity a) rest"
    and srt: "sorted (map timestamp rest)" by simp_all
  show ?case
  proof (cases "t > deadline a oldest")
    case True
    let ?w1 = "buffer_delete a oldest (reclaim_buffer_elements (elements oldest) w)"
    from Cons.IH [OF rest srt, of t ?w1] obtain t' w' where
      "purge_loop exhaustive a t rest ?w1 = Returns (t', [], w')"
      "clock ?w1 \<le> clock w'"
      "destroyed_entries (trace w') = destroyed_entries (trace ?w1) @ concat (map elements rest)"
      "slept_deadlines (trace w') = slept_deadlines (trace ?w1)
               @ map (deadline a) (dropWhile (\<lambda>b. t > deadline a b) rest)" by blast
    with True full show ?thesis
      by (simp add: deadline_def reclaim_full_buffer_def elements_range_full)
  next
    case False
    let ?d = "deadline a oldest"
    let ?w1 = "buffer_delete a oldest (reclaim_buffer_elements (elements oldest) (sleep_until ?d w))"
    from Cons.IH [OF rest srt, of ?d ?w1] obtain t' w' where
      "purge_loop exhaustive a ?d rest ?w1 = Returns (t', [], w')"
      "clock ?w1 \<le> clock w'"
      "destroyed_entries (trace w') = destroyed_entries (trace ?w1) @ concat (map elements rest)"
      "slept_deadlines (trace w') = slept_deadlines (trace ?w1)
               @ map (deadline a) (dropWhile (\<lambda>b. ?d > deadline a b) rest)" by blast
    moreover have "dropWhile (\<lambda>b. ?d > deadline a b) rest = rest"
      using Cons.prems(2) by (rule dropWhile_sorted_deadline)
    moreover have "clock w \<le> clock (sleep_until ?d w)" by (rule sleep_until_clock)
    ultimately show ?thesis using False full
      by (simp add: deadline_def reclaim_full_buffer_def elements_range_full)
  qed
qed

section \<open>Further lemmas on purge; running examples\<close>

lemma head_after_dropWhile: "dropWhile P xs = x # rest \<Longrightarrow> \<not> P x"
  by (induction xs) (auto split: if_splits)

lemma purge_loop_purged:
  assumes "purge_loop flavor a t dl w = Returns (t', rest, w')"
  shows "\<exists>purged. dl = purged @ rest
           \<and> destroyed_entries (trace w')
               = destroyed_entries (trace w)
                 @ concat (map (\<lambda>b. take (buffer_capacity a) (elements b)) purged)"
  using assms
proof (induction dl arbitrary: t w)
  case Nil
  then show ?case by simp
next
  case (Cons oldest rest0)
  let ?cap = "buffer_capacity a"
  show ?case
  proof (cases "t > timestamp oldest + timeout a")
    case True
    with Cons.prems obtain w1 where
      r: "reclaim_full_buffer a oldest w = Returns w1"
      and l: "purge_loop flavor a t rest0 w1 = Returns (t', rest, w')"
      by (auto split: outcome.splits)
    from r have d: "destroyed_entries (trace w1)
        = destroyed_entries (trace w) @ take ?cap (elements oldest)"
      by (auto simp: reclaim_full_buffer_def elements_range_def split: if_splits)
    from Cons.IH [OF l] obtain purged where
      "rest0 = purged @ rest"
      "destroyed_entries (trace w') = destroyed_entries (trace w1)
          @ concat (map (\<lambda>b. take ?cap (elements b)) purged)" by blast
    with d have "oldest # rest0 = (oldest # purged) @ rest
      \<and> destroyed_entries (trace w') = destroyed_entries (trace w)
          @ concat (map (\<lambda>b. take ?cap (elements b)) (oldest # purged))" by simp
    then show ?thesis by blast
  next
    case False
    show ?thesis
    proof (cases flavor)
      case opportunistic
      with False Cons.prems have "rest = oldest # rest0" "w' = w" by simp_all
      then show ?thesis by simp
    next
      case exhaustive
      let ?d = "timestamp oldest + timeout a"
      from exhaustive False Cons.prems obtain w1 where
        r: "reclaim_full_buffer a oldest (sleep_until ?d w) = Returns w1"
        and l: "purge_loop flavor a ?d rest0 w1 = Returns (t', rest, w')"
        by (auto simp: Let_def split: outcome.splits)
      from r have d: "destroyed_entries (trace w1)
          = destroyed_entries (trace w) @ take ?cap (elements oldest)"
        by (auto simp: reclaim_full_buffer_def elements_range_def split: if_splits)
      from Cons.IH [OF l] obtain purged where
        "rest0 = purged @ rest"
        "destroyed_entries (trace w') = destroyed_entries (trace w1)
            @ concat (map (\<lambda>b. take ?cap (elements b)) purged)" by blast
      with d have "oldest # rest0 = (oldest # purged) @ rest
        \<and> destroyed_entries (trace w') = destroyed_entries (trace w)
            @ concat (map (\<lambda>b. take ?cap (elements b)) (oldest # purged))" by simp
      then show ?thesis by blast
    qed
  qed
qed

lemma noexcept_Returns [simp]: "(noexcept c r = Returns x) = (r = Returns x)"
  by (simp add: noexcept_def split: outcome.splits abrupt.splits)

lemma noexcept_of_Returns [simp]: "noexcept c (Returns x) = Returns x"
  by (simp add: noexcept_def)

lemmas run_defs = construct_from_def TimeoutClock_now_def buffer_new_def underlying_allocate_def
  fresh_address_def size_t_def emit_def destructor_def noexcept_def purge_def was_moved_from_def
  current_buffer_empty_def buffer_delete_def underlying_deallocate_def example_world_def
  elements_range_def reclaim_full_buffer_def sleep_until_def perform_def deallocate_def
  deallocate_body_def current_buffer_full_def current_buffer_push_back_def seal_def
  start_buffer_def recover_def purge_delay_list_and_reuse_existing_buffer_def
  reclaim_element_def time_passes_def copy_construct_def converting_copy_construct_def
  allocate_def

lemma just_constructed_reachable:
  "construct_from () 10 1 True example_world = Returns just_constructed"
  by (simp add: run_defs just_constructed_def)

lemma two_sealed_buffers_reachable:
  "(case construct_from () 10 1 True example_world of
      Returns s \<Rightarrow> perform_all [Deallocate 1000 1, Wait 5, Deallocate 1001 1, Wait 7] s
    | Abrupt x w \<Rightarrow> Abrupt x w)
   = Returns two_sealed_buffers"
  by (simp add: run_defs two_sealed_buffers_def)

lemma one_unsealed_entry_reachable:
  "(case construct_from () 10 2 True example_world of
      Returns s \<Rightarrow> perform_all [Deallocate 1000 1, Wait 12] s
    | Abrupt x w \<Rightarrow> Abrupt x w)
   = Returns one_unsealed_entry"
  by (simp add: run_defs one_unsealed_entry_def)

section \<open>The state invariant is kept\<close>

lemma consistent_iff:
  "consistent w a =
     ((\<exists>b. current_buffer a = Some b \<and> current_buffer_size a \<le> length (elements b))
      \<and> current_buffer_size a < buffer_capacity a
      \<and> sealed_ok w (buffer_capacity a) (delay_list a))"
  by (auto simp: consistent_def state_invariant_def sealed_ok_def split: option.splits)

lemma sealed_ok_suffix: "sealed_ok w cap (purged @ rest) \<Longrightarrow> sealed_ok w cap rest"
  by (auto simp: sealed_ok_def sorted_append)

lemma sealed_ok_clock: "sealed_ok w cap dl \<Longrightarrow> clock w \<le> clock w' \<Longrightarrow> sealed_ok w' cap dl"
  by (auto simp: sealed_ok_def list_all_iff)

lemma sealed_ok_seal:
  assumes "sealed_ok w cap dl" and "clock w \<le> t" and "clock w' = t"
    and "length (elements b) = cap"
  shows "sealed_ok w' cap (dl @ [b\<lparr>timestamp := t\<rparr>])"
  using assms by (auto simp: sealed_ok_def sorted_append list_all_iff)

lemma purge_and_reuse_loop_result:
  assumes "list_all (\<lambda>b. length (elements b) = buffer_capacity a) dl"
  shows "\<exists>reuse rest w'. purge_and_reuse_loop a r0 dl w = Returns (reuse, rest, w')
           \<and> clock w' = clock w
           \<and> (\<exists>purged. dl = purged @ rest)
           \<and> (\<forall>r. reuse = Some r \<longrightarrow> r0 = Some r \<or> r \<in> set dl)"
  using assms
proof (induction dl arbitrary: r0 w)
  case Nil
  then show ?case by simp
next
  case (Cons oldest rest0)
  from Cons.prems have full: "length (elements oldest) = buffer_capacity a"
    and rest: "list_all (\<lambda>b. length (elements b) = buffer_capacity a) rest0" by simp_all
  show ?case
  proof (cases "now a \<le> timestamp oldest + timeout a")
    case True
    then have "purge_and_reuse_loop a r0 (oldest # rest0) w = Returns (r0, oldest # rest0, w)"
      by simp
    then show ?thesis by auto
  next
    case False
    let ?w1 = "reclaim_buffer_elements (elements oldest) w"
    show ?thesis
    proof (cases r0)
      case None
      from Cons.IH [OF rest, of "Some oldest" ?w1] obtain reuse rest w' purged where
        "purge_and_reuse_loop a (Some oldest) rest0 ?w1 = Returns (reuse, rest, w')"
        "clock w' = clock ?w1" "rest0 = purged @ rest"
        "\<forall>r. reuse = Some r \<longrightarrow> Some oldest = Some r \<or> r \<in> set rest0" by blast
      with False None full have
        "purge_and_reuse_loop a r0 (oldest # rest0) w = Returns (reuse, rest, w')
         \<and> clock w' = clock w \<and> oldest # rest0 = (oldest # purged) @ rest
         \<and> (\<forall>r. reuse = Some r \<longrightarrow> r0 = Some r \<or> r \<in> set (oldest # rest0))"
        by (auto simp: elements_range_full)
      then show ?thesis by blast
    next
      case (Some kept)
      let ?w2 = "buffer_delete a oldest ?w1"
      from Cons.IH [OF rest, of r0 ?w2] obtain reuse rest w' purged where
        "purge_and_reuse_loop a r0 rest0 ?w2 = Returns (reuse, rest, w')"
        "clock w' = clock ?w2" "rest0 = purged @ rest"
        "\<forall>r. reuse = Some r \<longrightarrow> r0 = Some r \<or> r \<in> set rest0" by blast
      with False Some full have
        "purge_and_reuse_loop a r0 (oldest # rest0) w = Returns (reuse, rest, w')
         \<and> clock w' = clock w \<and> oldest # rest0 = (oldest # purged) @ rest
         \<and> (\<forall>r. reuse = Some r \<longrightarrow> r0 = Some r \<or> r \<in> set (oldest # rest0))"
        by (auto simp: elements_range_full)
      then show ?thesis by blast
    qed
  qed
qed

lemma purge_and_reuse_sealed_ok:
  assumes "sealed_ok w (buffer_capacity a) (delay_list a)"
  shows "\<exists>reuse rest w'.
           purge_delay_list_and_reuse_existing_buffer (w, a)
             = Returns (reuse, w', a\<lparr>delay_list := rest\<rparr>)
           \<and> clock w' = clock w
           \<and> sealed_ok w' (buffer_capacity a) rest
           \<and> (\<forall>r. reuse = Some r \<longrightarrow> length (elements r) = buffer_capacity a)"
proof -
  from assms have full: "list_all (\<lambda>b. length (elements b) = buffer_capacity a) (delay_list a)"
    by (simp add: sealed_ok_def)
  from purge_and_reuse_loop_result [OF full, of None w] obtain reuse rest w' purged where
    l: "purge_and_reuse_loop a None (delay_list a) w = Returns (reuse, rest, w')"
    and c: "clock w' = clock w" and p: "delay_list a = purged @ rest"
    and r: "\<forall>r. reuse = Some r \<longrightarrow> r \<in> set (delay_list a)" by auto
  from assms p have "sealed_ok w (buffer_capacity a) rest"
    using sealed_ok_suffix by metis
  with c have ok: "sealed_ok w' (buffer_capacity a) rest"
    using sealed_ok_clock by (metis order_refl)
  from r full have len: "\<forall>r. reuse = Some r \<longrightarrow> length (elements r) = buffer_capacity a"
    by (auto simp: list_all_iff)
  from l c ok len show ?thesis
    by (auto simp: purge_delay_list_and_reuse_existing_buffer_def)
qed

lemma buffer_new_effect:
  "buffer_new a w = (Inr b, w') \<Longrightarrow> elements b = [] \<and> clock w' = clock w"
  "buffer_new a w = (Inl e, w') \<Longrightarrow> clock w' = clock w"
  by (auto simp: buffer_new_def underlying_allocate_def Let_def
      split: list.splits alloc_outcome.splits)

lemma start_buffer_consistent:
  assumes "sealed_ok w (buffer_capacity a) (delay_list a)" and "0 < buffer_capacity a"
    and "start_buffer (Some b) (w, a) = Returns (w', a')"
  shows "consistent w' a' \<and> buffer_capacity a' = buffer_capacity a"
  using assms by (auto simp: start_buffer_def consistent_iff)


lemma recover_consistent:
  assumes ok: "sealed_ok w (buffer_capacity a) (delay_list a)" and cap: "0 < buffer_capacity a"
    and r: "recover (w, a) = Returns (w', a')"
  shows "consistent w' a' \<and> buffer_capacity a' = buffer_capacity a"
proof -
  from r obtain oldest rest where dl: "delay_list a = oldest # rest"
    by (cases "delay_list a") (simp_all add: recover_def)
  let ?w1 = "sleep_until (timestamp oldest + timeout a) w"
  obtain t w2 where n: "TimeoutClock_now ?w1 = (t, w2)" by (cases "TimeoutClock_now ?w1")
  have "clock w \<le> clock ?w1" by (rule sleep_until_clock)
  moreover have "clock ?w1 \<le> clock w2" using now_clock [of ?w1] n by simp
  ultimately have "clock w \<le> clock w2" by simp
  with ok have ok2: "sealed_ok w2 (buffer_capacity (a\<lparr>now := t\<rparr>)) (delay_list (a\<lparr>now := t\<rparr>))"
    using sealed_ok_clock by simp
  from purge_and_reuse_sealed_ok [OF ok2] obtain reuse rest' w3 where
    p: "purge_delay_list_and_reuse_existing_buffer (w2, a\<lparr>now := t\<rparr>)
          = Returns (reuse, w3, a\<lparr>now := t, delay_list := rest'\<rparr>)"
    and ok3: "sealed_ok w3 (buffer_capacity a) rest'" by auto
  from r dl n p have s: "start_buffer reuse (w3, a\<lparr>now := t, delay_list := rest'\<rparr>) = Returns (w', a')"
    by (simp add: recover_def)
  then obtain b where "reuse = Some b" by (cases reuse) (simp_all add: start_buffer_def)
  with s ok3 cap show ?thesis
    using start_buffer_consistent [of w3 "a\<lparr>now := t, delay_list := rest'\<rparr>" b w' a'] by simp
qed

lemma deallocate_body_consistent:
  assumes c: "consistent w a" and r: "deallocate_body p n (w, a) = Returns (w', a')"
  shows "consistent w' a' \<and> buffer_capacity a' = buffer_capacity a"
proof -
  from c obtain b where cur: "current_buffer a = Some b"
    and fits: "current_buffer_size a \<le> length (elements b)"
    and lt: "current_buffer_size a < buffer_capacity a"
    and ok: "sealed_ok w (buffer_capacity a) (delay_list a)"
    by (auto simp: consistent_iff)
  let ?b1 = "b\<lparr>elements := take (current_buffer_size a) (elements b) @ [(p, n)]\<rparr>"
  let ?a1 = "current_buffer_push_back (p, n) a"
  have a1: "current_buffer ?a1 = Some ?b1" "current_buffer_size ?a1 = current_buffer_size a + 1"
    "buffer_capacity ?a1 = buffer_capacity a" "delay_list ?a1 = delay_list a"
    using cur by (simp_all add: current_buffer_push_back_def)
  have len: "length (elements ?b1) = current_buffer_size a + 1" using fits by simp
  show ?thesis
  proof (cases "current_buffer_full ?a1")
    case False
    with r cur lt have "w' = w" "a' = ?a1"
      by (simp_all add: deallocate_body_def was_moved_from_def current_buffer_full_def Let_def)
    moreover from False lt a1 have "current_buffer_size ?a1 < buffer_capacity ?a1"
      by (simp add: current_buffer_full_def)
    ultimately show ?thesis using a1 len ok by (simp add: consistent_iff)
  next
    case True
    then have full: "current_buffer_size a + 1 = buffer_capacity a"
      using a1 by (simp add: current_buffer_full_def)
    then have cap: "0 < buffer_capacity a" by simp
    obtain t w1 where n: "TimeoutClock_now w = (t, w1)" by (cases "TimeoutClock_now w")
    have tc: "clock w1 = t" "clock w \<le> t" using now_fst [of w] now_clock [of w] n by simp_all
    let ?a2 = "?a1\<lparr>now := t, current_buffer := None,
                  delay_list := delay_list a @ [?b1\<lparr>timestamp := t\<rparr>]\<rparr>"
    have seal: "seal (w, ?a1) = (w1, ?a2)" using n a1 by (simp add: seal_def)
    have "sealed_ok w1 (buffer_capacity a) (delay_list a @ [?b1\<lparr>timestamp := t\<rparr>])"
      using ok tc len full by (intro sealed_ok_seal) simp_all
    then have ok2: "sealed_ok w1 (buffer_capacity ?a2) (delay_list ?a2)" using a1 by simp
    from purge_and_reuse_sealed_ok [OF ok2] obtain reuse rest w2 where
      p: "purge_delay_list_and_reuse_existing_buffer (w1, ?a2)
            = Returns (reuse, w2, ?a2\<lparr>delay_list := rest\<rparr>)"
      and c2: "clock w2 = clock w1"
      and ok3: "sealed_ok w2 (buffer_capacity a) rest" using a1 by auto
    let ?a3 = "?a2\<lparr>delay_list := rest\<rparr>"
    have a3: "buffer_capacity ?a3 = buffer_capacity a" "delay_list ?a3 = rest"
      using a1 by simp_all
    show ?thesis
    proof (cases reuse)
      case (Some kept)
      with r cur lt True seal p
      have "start_buffer (Some kept) (w2, ?a3) = Returns (w', a')"
        by (simp add: deallocate_body_def was_moved_from_def current_buffer_full_def Let_def)
      with ok3 cap a3 show ?thesis
        using start_buffer_consistent [of w2 ?a3 kept w' a'] by simp
    next
      case None
      obtain res w3 where bn: "buffer_new ?a3 w2 = (res, w3)" by (cases "buffer_new ?a3 w2")
      show ?thesis
      proof (cases res)
        case (Inr fresh)
        with r cur lt True seal p None bn
        have "start_buffer (Some fresh) (w3, ?a3) = Returns (w', a')"
          by (simp add: deallocate_body_def was_moved_from_def current_buffer_full_def Let_def)
        moreover from bn Inr have "clock w3 = clock w2" using buffer_new_effect(1) by blast
        with ok3 have "sealed_ok w3 (buffer_capacity a) rest" using sealed_ok_clock by simp
        ultimately show ?thesis using cap a3
          using start_buffer_consistent [of w3 ?a3 fresh w' a'] by simp
      next
        case (Inl e)
        with r cur lt True seal p None bn
        have e: "e = Bad_alloc" and rec: "recover (w3, ?a3) = Returns (w', a')"
          by (cases e; simp add: deallocate_body_def was_moved_from_def current_buffer_full_def Let_def)+
        from bn Inl have "clock w3 = clock w2" using buffer_new_effect(2) by blast
        with ok3 have "sealed_ok w3 (buffer_capacity a) rest" using sealed_ok_clock by simp
        with rec cap a3 show ?thesis
          using recover_consistent [of w3 ?a3 w' a'] by simp
      qed
    qed
  qed
qed

lemma deallocate_consistent:
  assumes "consistent w a" and "deallocate p n (w, a) = Returns (w', a')"
  shows "consistent w' a' \<and> buffer_capacity a' = buffer_capacity a"
proof -
  let ?w0 = "emit (Deallocate_called p n (clock w)) w"
  from assms(1) have "consistent ?w0 a" by (simp add: consistent_iff sealed_ok_def)
  moreover from assms(2) have "deallocate_body p n (?w0, a) = Returns (w', a')"
    by (simp add: deallocate_def)
  ultimately show ?thesis by (rule deallocate_body_consistent)
qed

lemma purge_loop_suffix:
  assumes "purge_loop flavor a t dl w = Returns (t', rest, w')"
  shows "(\<exists>purged. dl = purged @ rest) \<and> clock w \<le> clock w'"
  using assms
proof (induction dl arbitrary: t w)
  case Nil
  then show ?case by simp
next
  case (Cons oldest rest0)
  show ?case
  proof (cases "t > timestamp oldest + timeout a")
    case True
    with Cons.prems obtain w1 where
      r: "reclaim_full_buffer a oldest w = Returns w1"
      and l: "purge_loop flavor a t rest0 w1 = Returns (t', rest, w')"
      by (auto split: outcome.splits)
    from r have "clock w1 = clock w"
      by (auto simp: reclaim_full_buffer_def split: option.splits)
    with Cons.IH [OF l] show ?thesis by (auto intro: exI [of _ "oldest # purged" for purged])
  next
    case False
    show ?thesis
    proof (cases flavor)
      case opportunistic
      with False Cons.prems show ?thesis by simp
    next
      case exhaustive
      let ?d = "timestamp oldest + timeout a"
      from exhaustive False Cons.prems obtain w1 where
        r: "reclaim_full_buffer a oldest (sleep_until ?d w) = Returns w1"
        and l: "purge_loop flavor a ?d rest0 w1 = Returns (t', rest, w')"
        by (auto simp: Let_def split: outcome.splits)
      from r have "clock w1 = clock (sleep_until ?d w)"
        by (auto simp: reclaim_full_buffer_def split: option.splits)
      then have "clock w \<le> clock w1" using sleep_until_clock(1) [of w ?d] by simp
      with Cons.IH [OF l] show ?thesis by (auto intro: exI [of _ "oldest # purged" for purged])
    qed
  qed
qed

lemma purge_consistent:
  assumes c: "consistent w a" and r: "purge flavor (w, a) = Returns (w', a')"
  shows "consistent w' a' \<and> buffer_capacity a' = buffer_capacity a"
proof -
  obtain t w1 where n: "TimeoutClock_now w = (t, w1)" by (cases "TimeoutClock_now w")
  from r n obtain t2 rest where
    l: "purge_loop flavor a t (delay_list a) w1 = Returns (t2, rest, w')"
    and a': "a' = a\<lparr>now := t2, delay_list := rest\<rparr>"
    by (auto simp: purge_def split: if_splits outcome.splits)
  from purge_loop_suffix [OF l] obtain purged where
    p: "delay_list a = purged @ rest" and "clock w1 \<le> clock w'" by auto
  moreover have "clock w \<le> clock w1" using now_clock [of w] n by simp
  ultimately have "clock w \<le> clock w'" by simp
  moreover from c have "sealed_ok w (buffer_capacity a) (purged @ rest)"
    using p by (simp add: consistent_iff)
  ultimately have "sealed_ok w' (buffer_capacity a) rest"
    using sealed_ok_suffix sealed_ok_clock by blast
  with c a' show ?thesis by (auto simp: consistent_iff)
qed

lemma perform_consistent:
  assumes "consistent w a" and "perform c (w, a) = Returns (w', a')"
  shows "consistent w' a' \<and> buffer_capacity a' = buffer_capacity a"
proof (cases c)
  case (Allocate n)
  with assms(2) obtain p where "allocate n (w, a) = Returns (p, w', a')"
    by (auto simp: perform_def split: outcome.splits)
  then have "a' = a" "clock w' = clock w"
    by (auto simp: allocate_def underlying_allocate_def Let_def
        split: if_splits prod.splits sum.splits list.splits alloc_outcome.splits)
  with assms(1) show ?thesis by (simp add: consistent_iff sealed_ok_def)
next
  case (Construct p)
  with assms(2) have "a' = a" "clock w' = clock w"
    by (auto simp: perform_def construct_def split: if_splits)
  with assms(1) show ?thesis by (simp add: consistent_iff sealed_ok_def)
next
  case (Destroy p)
  with assms show ?thesis by (auto simp: perform_def destroy_def split: if_splits)
next
  case (Deallocate p n)
  with assms show ?thesis using deallocate_consistent [of w a p n w' a'] by (simp add: perform_def)
next
  case (Purge flavor)
  with assms show ?thesis using purge_consistent [of w a flavor w' a'] by (simp add: perform_def)
next
  case (Wait d)
  with assms(2) have "a' = a" "clock w \<le> clock w'"
    by (auto simp: perform_def time_passes_def)
  with assms(1) show ?thesis using sealed_ok_clock by (auto simp: consistent_iff)
qed

lemma perform_all_consistent:
  assumes "consistent w a" and "perform_all calls (w, a) = Returns (w', a')"
  shows "consistent w' a' \<and> buffer_capacity a' = buffer_capacity a"
  using assms
proof (induction calls arbitrary: w a)
  case Nil
  then show ?case by simp
next
  case (Cons c calls)
  from Cons.prems(2) obtain w1 a1 where p: "perform c (w, a) = Returns (w1, a1)"
    and rest: "perform_all calls (w1, a1) = Returns (w', a')"
    by (auto split: outcome.splits)
  from perform_consistent [OF Cons.prems(1) p] have "consistent w1 a1"
    and "buffer_capacity a1 = buffer_capacity a" by simp_all
  with Cons.IH [OF _ rest] show ?case by simp
qed

lemma construct_from_consistent:
  assumes "construct_from underlying tmo delay_buffer_size nothrow w = Returns (w', a)"
  shows "consistent w' a \<and> buffer_capacity a = delay_buffer_size \<and> timeout a = tmo
         \<and> current_buffer_size a = 0 \<and> delay_list a = []"
proof -
  obtain t w1 where n: "TimeoutClock_now w = (t, w1)" by (cases "TimeoutClock_now w")
  from assms n show ?thesis
    by (auto simp: construct_from_def Let_def consistent_iff sealed_ok_def
        dest: buffer_new_effect(1) split: if_splits prod.splits sum.splits)
qed

lemma converting_copy_construct_consistent:
  assumes "converting_copy_construct convert nothrow other w = Returns (w', a)"
    and "1 \<le> buffer_capacity other"
  shows "consistent w' a"
proof -
  obtain t w1 where n: "TimeoutClock_now w = (t, w1)" by (cases "TimeoutClock_now w")
  from assms n show ?thesis
    by (auto simp: converting_copy_construct_def Let_def consistent_iff sealed_ok_def
        dest: buffer_new_effect(1) split: if_splits prod.splits sum.splits)
qed

lemma move_construct_consistent:
  assumes "consistent w other" and "move_construct other w = (w', a, other')"
  shows "consistent w' a \<and> was_moved_from other'"
proof -
  obtain t w1 where n: "TimeoutClock_now w = (t, w1)" by (cases "TimeoutClock_now w")
  then have "clock w \<le> clock w1" using now_clock [of w] by simp
  with assms n show ?thesis
    using sealed_ok_clock [of w "buffer_capacity other" "delay_list other" w1]
    by (auto simp: move_construct_def consistent_iff was_moved_from_def)
qed

section \<open>Fresh blocks; a purge that finds nothing ready\<close>

lemma fold_max_ge: "(m::nat) \<le> fold max ys m"
  by (induction ys arbitrary: m) (auto intro: order_trans [OF max.cobounded2])

lemma fold_max_member: "(y::nat) \<in> set ys \<Longrightarrow> y \<le> fold max ys m"
proof (induction ys arbitrary: m)
  case Nil
  then show ?case by simp
next
  case (Cons x xs)
  show ?case
  proof (cases "y = x")
    case True
    have "max x m \<le> fold max xs (max x m)" by (rule fold_max_ge)
    with True show ?thesis by simp
  next
    case False
    with Cons show ?thesis by simp
  qed
qed

lemma fresh_address_not_live: "fresh_address w \<notin> fst ` set (live w)"
proof
  assume "fresh_address w \<in> fst ` set (live w)"
  then obtain c where "(fresh_address w, c) \<in> set (live w)" by auto
  then have "fresh_address w + c \<in> set (map (\<lambda>(q, c). q + c) (live w))" by force
  then have "fresh_address w + c \<le> fold max (map (\<lambda>(q, c). q + c) (live w)) 0"
    by (rule fold_max_member)
  then show False by (simp add: fresh_address_def)
qed

lemma purge_and_reuse_not_ready:
  assumes "now a \<le> timestamp oldest + timeout a" and "delay_list a = oldest # rest"
  shows "purge_delay_list_and_reuse_existing_buffer (w, a) = Returns (None, w, a)"
  using assms by (simp add: purge_delay_list_and_reuse_existing_buffer_def)

section \<open>Purge does not reclaim before the deadline\<close>

text \<open>
  Every entry \<^verbatim>\<open>purge\<close> destroys belongs to a buffer of the delay list, and is
  destroyed when the clock shows the buffer's deadline or more; strictly more in
  the opportunistic mode.
\<close>

lemma destroyed_at_append [simp]:
  "destroyed_at (xs @ ys) = destroyed_at xs @ destroyed_at ys"
  by (simp add: destroyed_at_def)

lemma destroyed_at_simps [simp]:
  "destroyed_at [] = []"
  "destroyed_at (e # es)
     = (case e of Destroyed p n t \<Rightarrow> [((p, n), t)] | _ \<Rightarrow> []) @ destroyed_at es"
  by (simp_all add: destroyed_at_def)

lemma reclaim_buffer_elements_at:
  "destroyed_at (trace (reclaim_buffer_elements elems w))
     = destroyed_at (trace w) @ map (\<lambda>e. (e, clock w)) elems"
proof (induction elems arbitrary: w)
  case Nil
  then show ?case by simp
next
  case (Cons elem rest)
  have "destroyed_at (trace (reclaim_element elem w)) = destroyed_at (trace w) @ [(elem, clock w)]"
    by (simp add: reclaim_element_def underlying_deallocate_def split: prod.split)
  with Cons [of "reclaim_element elem w"] show ?case by simp
qed

lemma reclaim_full_buffer_at:
  assumes "reclaim_full_buffer a b w = Returns w1"
  shows "clock w1 = clock w
       \<and> destroyed_at (trace w1)
           = destroyed_at (trace w) @ map (\<lambda>e. (e, clock w)) (take (buffer_capacity a) (elements b))"
  using assms
  by (auto simp: reclaim_full_buffer_def elements_range_def buffer_delete_def
      underlying_deallocate_def reclaim_buffer_elements_at split: if_splits)

lemma purge_loop_not_before_the_deadline:
  assumes "purge_loop flavor a t dl w = Returns (t', rest, w')" and "t \<le> clock w"
  shows "\<exists>new. destroyed_at (trace w') = destroyed_at (trace w) @ new
           \<and> (\<forall>(e, u) \<in> set new. \<exists>b \<in> set dl. e \<in> set (elements b)
                  \<and> deadline a b \<le> u \<and> (flavor = opportunistic \<longrightarrow> deadline a b < u))"
  using assms
proof (induction dl arbitrary: t w)
  case Nil
  then show ?case by simp
next
  case (Cons oldest rest0)
  let ?d = "timestamp oldest + timeout a"
  let ?mine = "\<lambda>w0. map (\<lambda>e. (e, clock w0)) (take (buffer_capacity a) (elements oldest))"
  show ?case
  proof (cases "t > ?d")
    case True
    with Cons.prems obtain w1 where
      r: "reclaim_full_buffer a oldest w = Returns w1"
      and l: "purge_loop flavor a t rest0 w1 = Returns (t', rest, w')"
      by (auto split: outcome.splits)
    from reclaim_full_buffer_at [OF r] have c: "clock w1 = clock w"
      and d: "destroyed_at (trace w1) = destroyed_at (trace w) @ ?mine w" by simp_all
    from Cons.IH [OF l] Cons.prems(2) c obtain new where
      n: "destroyed_at (trace w') = destroyed_at (trace w1) @ new"
      and b: "\<forall>(e, u) \<in> set new. \<exists>b \<in> set rest0. e \<in> set (elements b)
                  \<and> deadline a b \<le> u \<and> (flavor = opportunistic \<longrightarrow> deadline a b < u)"
      by auto
    have "\<forall>(e, u) \<in> set (?mine w). e \<in> set (elements oldest) \<and> deadline a oldest < u"
      using True Cons.prems(2) by (auto simp: deadline_def dest: in_set_takeD)
    with b have "\<forall>(e, u) \<in> set (?mine w @ new). \<exists>b \<in> set (oldest # rest0). e \<in> set (elements b)
                  \<and> deadline a b \<le> u \<and> (flavor = opportunistic \<longrightarrow> deadline a b < u)"
      by fastforce
    moreover from n d have "destroyed_at (trace w') = destroyed_at (trace w) @ (?mine w @ new)"
      by simp
    ultimately show ?thesis by blast
  next
    case False
    show ?thesis
    proof (cases flavor)
      case opportunistic
      with False Cons.prems have "w' = w" by simp
      then show ?thesis by simp
    next
      case exhaustive
      let ?w0 = "sleep_until ?d w"
      from exhaustive False Cons.prems obtain w1 where
        r: "reclaim_full_buffer a oldest ?w0 = Returns w1"
        and l: "purge_loop flavor a ?d rest0 w1 = Returns (t', rest, w')"
        by (auto simp: Let_def split: outcome.splits)
      have woke: "?d \<le> clock ?w0" by (rule sleep_until_clock)
      have "destroyed_at (trace ?w0) = destroyed_at (trace w)" by simp
      with reclaim_full_buffer_at [OF r] have c: "clock w1 = clock ?w0"
        and d: "destroyed_at (trace w1) = destroyed_at (trace w) @ ?mine ?w0" by simp_all
      from woke c have "?d \<le> clock w1" by simp
      from Cons.IH [OF l this] obtain new where
        n: "destroyed_at (trace w') = destroyed_at (trace w1) @ new"
        and b: "\<forall>(e, u) \<in> set new. \<exists>b \<in> set rest0. e \<in> set (elements b)
                  \<and> deadline a b \<le> u \<and> (flavor = opportunistic \<longrightarrow> deadline a b < u)"
        by auto
      have "\<forall>(e, u) \<in> set (?mine ?w0). e \<in> set (elements oldest) \<and> deadline a oldest \<le> u"
        using woke by (auto simp: deadline_def dest: in_set_takeD)
      with b exhaustive
      have "\<forall>(e, u) \<in> set (?mine ?w0 @ new). \<exists>b \<in> set (oldest # rest0). e \<in> set (elements b)
                  \<and> deadline a b \<le> u \<and> (flavor = opportunistic \<longrightarrow> deadline a b < u)"
        by fastforce
      moreover from n d have "destroyed_at (trace w') = destroyed_at (trace w) @ (?mine ?w0 @ new)"
        by simp
      ultimately show ?thesis by blast
    qed
  qed
qed

lemma purge_not_before_the_deadline:
  assumes "purge flavor (w, a) = Returns (w', a')"
  shows "\<exists>new. destroyed_at (trace w') = destroyed_at (trace w) @ new
           \<and> (\<forall>(e, u) \<in> set new. \<exists>b \<in> set (delay_list a). e \<in> set (elements b)
                  \<and> deadline a b \<le> u \<and> (flavor = opportunistic \<longrightarrow> deadline a b < u))"
proof -
  obtain t w1 where n: "TimeoutClock_now w = (t, w1)" by (cases "TimeoutClock_now w")
  then have tr: "trace w1 = trace w" and c: "t \<le> clock w1"
    using now_frame(1) [of w] now_fst [of w] by simp_all
  from assms n obtain t2 rest where
    l: "purge_loop flavor a t (delay_list a) w1 = Returns (t2, rest, w')"
    by (auto simp: purge_def split: if_splits outcome.splits)
  from purge_loop_not_before_the_deadline [OF l c] tr show ?thesis by simp
qed

section \<open>No entry is destroyed sooner than the timeout after its deallocation\<close>

lemma called_at_append [simp]: "called_at (xs @ ys) = called_at xs @ called_at ys"
  by (simp add: called_at_def)

lemma called_at_simps [simp]:
  "called_at [] = []"
  "called_at (e # es)
     = (case e of Deallocate_called p n t \<Rightarrow> [((p, n), t)] | _ \<Rightarrow> []) @ called_at es"
  by (simp_all add: called_at_def)

lemma requested_by_mono:
  assumes "requested_by es limit e" and "limit \<le> limit'"
    and "called_at es' = called_at es @ extra"
  shows "requested_by es' limit' e"
  using assms by (auto simp: requested_by_def)

lemma lifetimes_ok_extend:
  assumes "lifetimes_ok tmo es"
    and "called_at es' = called_at es @ extra"
    and "destroyed_at es' = destroyed_at es @ new"
    and "\<forall>(e, u) \<in> set new. requested_by es (u - tmo) e"
  shows "lifetimes_ok tmo es'"
  unfolding lifetimes_ok_def
proof (clarify)
  fix p n u
  assume "((p, n), u) \<in> set (destroyed_at es')"
  with assms(3) have "((p, n), u) \<in> set (destroyed_at es) \<or> ((p, n), u) \<in> set new" by simp
  with assms(1,4) have "requested_by es (u - tmo) (p, n)"
    by (auto simp: lifetimes_ok_def)
  then show "requested_by es' (u - tmo) (p, n)"
    using assms(2) by (rule requested_by_mono [OF _ order_refl])
qed

lemma reclaim_buffer_elements_called [simp]:
  "called_at (trace (reclaim_buffer_elements elems w)) = called_at (trace w)"
proof (induction elems arbitrary: w)
  case Nil
  then show ?case by simp
next
  case (Cons elem rest)
  have "called_at (trace (reclaim_element elem w)) = called_at (trace w)"
    by (simp add: reclaim_element_def underlying_deallocate_def split: prod.split)
  with Cons [of "reclaim_element elem w"] show ?case by simp
qed

lemma buffer_delete_frame [simp]:
  "called_at (trace (buffer_delete a b w)) = called_at (trace w)"
  "destroyed_at (trace (buffer_delete a b w)) = destroyed_at (trace w)"
  by (simp_all add: buffer_delete_def underlying_deallocate_def)

lemma sleep_until_frame [simp]:
  "called_at (trace (sleep_until d w)) = called_at (trace w)"
  "destroyed_at (trace (sleep_until d w)) = destroyed_at (trace w)"
  by simp_all

lemma reclaim_full_buffer_called:
  "reclaim_full_buffer a b w = Returns w1 \<Longrightarrow> called_at (trace w1) = called_at (trace w)"
  by (auto simp: reclaim_full_buffer_def split: option.splits)

lemma purge_loop_called:
  assumes "purge_loop flavor a t dl w = Returns (t', rest, w')"
  shows "called_at (trace w') = called_at (trace w)"
  using assms
proof (induction dl arbitrary: t w)
  case Nil
  then show ?case by simp
next
  case (Cons oldest rest0)
  show ?case
  proof (cases "t > timestamp oldest + timeout a")
    case True
    with Cons.prems obtain w1 where
      r: "reclaim_full_buffer a oldest w = Returns w1"
      and l: "purge_loop flavor a t rest0 w1 = Returns (t', rest, w')"
      by (auto split: outcome.splits)
    from Cons.IH [OF l] reclaim_full_buffer_called [OF r] show ?thesis by simp
  next
    case False
    show ?thesis
    proof (cases flavor)
      case opportunistic
      with False Cons.prems show ?thesis by simp
    next
      case exhaustive
      let ?d = "timestamp oldest + timeout a"
      from exhaustive False Cons.prems obtain w1 where
        r: "reclaim_full_buffer a oldest (sleep_until ?d w) = Returns w1"
        and l: "purge_loop flavor a ?d rest0 w1 = Returns (t', rest, w')"
        by (auto simp: Let_def split: outcome.splits)
      from Cons.IH [OF l] reclaim_full_buffer_called [OF r] show ?thesis by simp
    qed
  qed
qed

lemma purge_and_reuse_loop_times:
  assumes "purge_and_reuse_loop a r0 dl w = Returns (reuse, rest, w')" and "now a \<le> clock w"
  shows "called_at (trace w') = called_at (trace w) \<and> clock w' = clock w
       \<and> set rest \<subseteq> set dl
       \<and> (\<exists>new. destroyed_at (trace w') = destroyed_at (trace w) @ new
             \<and> (\<forall>(e, u) \<in> set new. \<exists>b \<in> set dl. e \<in> set (elements b) \<and> deadline a b < u))"
  using assms
proof (induction dl arbitrary: r0 w)
  case Nil
  then show ?case by simp
next
  case (Cons oldest rest0)
  show ?case
  proof (cases "now a \<le> timestamp oldest + timeout a")
    case True
    with Cons.prems have "w' = w" "rest = oldest # rest0" by simp_all
    then show ?thesis by simp
  next
    case False
    let ?elems = "take (buffer_capacity a) (elements oldest)"
    let ?w1 = "reclaim_buffer_elements ?elems w"
    let ?mine = "map (\<lambda>e. (e, clock w)) ?elems"
    from False Cons.prems(1) have rng: "elements_range oldest (buffer_capacity a) = Some ?elems"
      by (auto simp: elements_range_def split: if_splits option.splits)
    obtain w2 r1 where l: "purge_and_reuse_loop a r1 rest0 w2 = Returns (reuse, rest, w')"
      and w2: "called_at (trace w2) = called_at (trace w)"
        "destroyed_at (trace w2) = destroyed_at (trace w) @ ?mine" "clock w2 = clock w"
    proof (cases r0)
      case None
      with False rng Cons.prems(1)
      have "purge_and_reuse_loop a (Some oldest) rest0 ?w1 = Returns (reuse, rest, w')" by simp
      then show ?thesis using that [of "Some oldest" ?w1] by (simp add: reclaim_buffer_elements_at)
    next
      case (Some kept)
      with False rng Cons.prems(1)
      have "purge_and_reuse_loop a r0 rest0 (buffer_delete a oldest ?w1) = Returns (reuse, rest, w')"
        by simp
      then show ?thesis using that [of r0 "buffer_delete a oldest ?w1"]
        by (simp add: reclaim_buffer_elements_at)
    qed
    from Cons.IH [OF l] Cons.prems(2) w2 obtain new where
      c: "called_at (trace w') = called_at (trace w)" "clock w' = clock w"
        "set rest \<subseteq> set rest0"
      and n: "destroyed_at (trace w') = destroyed_at (trace w2) @ new"
      and b: "\<forall>(e, u) \<in> set new. \<exists>b \<in> set rest0. e \<in> set (elements b) \<and> deadline a b < u"
      by auto
    have "\<forall>(e, u) \<in> set ?mine. e \<in> set (elements oldest) \<and> deadline a oldest < u"
      using False Cons.prems(2) by (auto simp: deadline_def dest: in_set_takeD)
    with b have "\<forall>(e, u) \<in> set (?mine @ new). \<exists>b \<in> set (oldest # rest0).
                    e \<in> set (elements b) \<and> deadline a b < u"
      by fastforce
    moreover from n w2 have "destroyed_at (trace w') = destroyed_at (trace w) @ (?mine @ new)"
      by simp
    ultimately show ?thesis using c by auto
  qed
qed

lemma guarded_iff:
  "guarded w a =
     ((case current_buffer a of
         None \<Rightarrow> True
       | Some b \<Rightarrow> \<forall>e \<in> set (take (current_buffer_size a) (elements b)).
                    requested_by (trace w) (clock w) e)
      \<and> sealed_guarded w a)"
  by (auto simp: guarded_def pending_ok_def sealed_guarded_def)

lemma reclaimed_sealed_guarded:
  assumes g: "sealed_guarded w a"
    and c: "called_at (trace w') = called_at (trace w)"
    and d: "destroyed_at (trace w') = destroyed_at (trace w) @ new"
    and b: "\<forall>(e, u) \<in> set new. \<exists>b \<in> set (delay_list a). e \<in> set (elements b) \<and> deadline a b \<le> u"
    and a': "timeout a' = timeout a" "set (delay_list a') \<subseteq> set (delay_list a)"
  shows "sealed_guarded w' a'"
proof -
  have "\<forall>(e, u) \<in> set new. requested_by (trace w) (u - timeout a) e"
  proof (clarify)
    fix p n u
    assume "((p, n), u) \<in> set new"
    with b obtain b0 where b0: "b0 \<in> set (delay_list a)" "(p, n) \<in> set (elements b0)"
      "deadline a b0 \<le> u" by fastforce
    with g have "requested_by (trace w) (timestamp b0) (p, n)" by (simp add: sealed_guarded_def)
    moreover from b0 have "timestamp b0 \<le> u - timeout a" by (simp add: deadline_def)
    ultimately show "requested_by (trace w) (u - timeout a) (p, n)"
      by (auto simp: requested_by_def)
  qed
  with g c d have "lifetimes_ok (timeout a) (trace w')"
    using lifetimes_ok_extend [of "timeout a" "trace w" "trace w'" "[]" new]
    by (simp add: sealed_guarded_def)
  moreover have "\<forall>b \<in> set (delay_list a'). \<forall>e \<in> set (elements b).
                   requested_by (trace w') (timestamp b) e"
    using g a'(2) c by (auto simp: sealed_guarded_def requested_by_def)
  ultimately show ?thesis using a'(1) by (simp add: sealed_guarded_def)
qed

lemma purge_and_reuse_sealed_guarded:
  assumes "sealed_guarded w a" and "now a \<le> clock w"
    and "purge_delay_list_and_reuse_existing_buffer (w, a) = Returns (reuse, w', a')"
  shows "sealed_guarded w' a' \<and> timeout a' = timeout a"
proof -
  from assms(3) obtain rest where
    l: "purge_and_reuse_loop a None (delay_list a) w = Returns (reuse, rest, w')"
    and a': "a' = a\<lparr>delay_list := rest\<rparr>"
    by (auto simp: purge_delay_list_and_reuse_existing_buffer_def split: outcome.splits)
  from purge_and_reuse_loop_times [OF l assms(2)] obtain new where
    "called_at (trace w') = called_at (trace w)" "set rest \<subseteq> set (delay_list a)"
    "destroyed_at (trace w') = destroyed_at (trace w) @ new"
    "\<forall>(e, u) \<in> set new. \<exists>b \<in> set (delay_list a). e \<in> set (elements b) \<and> deadline a b < u"
    by auto
  moreover from this(4)
  have "\<forall>(e, u) \<in> set new. \<exists>b \<in> set (delay_list a). e \<in> set (elements b) \<and> deadline a b \<le> u"
    by fastforce
  ultimately show ?thesis using assms(1) a'
    using reclaimed_sealed_guarded [of w a w' new a'] by simp
qed

lemma start_buffer_guarded:
  assumes "sealed_guarded w a" and "start_buffer buffer (w, a) = Returns (w', a')"
  shows "guarded w' a' \<and> timeout a' = timeout a"
  using assms
  by (auto simp: start_buffer_def guarded_iff sealed_guarded_def split: option.splits)

lemma sealed_guarded_frame:
  assumes "sealed_guarded w a" and "called_at (trace w') = called_at (trace w)"
    and "destroyed_at (trace w') = destroyed_at (trace w)"
    and "timeout a' = timeout a" and "delay_list a' = delay_list a"
  shows "sealed_guarded w' a'"
  using assms reclaimed_sealed_guarded [of w a w' "[]" a'] by simp

lemma recover_guarded:
  assumes g: "sealed_guarded w a" and r: "recover (w, a) = Returns (w', a')"
  shows "guarded w' a' \<and> timeout a' = timeout a"
proof -
  from r obtain oldest rest where dl: "delay_list a = oldest # rest"
    by (cases "delay_list a") (simp_all add: recover_def)
  let ?w1 = "sleep_until (timestamp oldest + timeout a) w"
  obtain t w2 where n: "TimeoutClock_now ?w1 = (t, w2)" by (cases "TimeoutClock_now ?w1")
  then have w2: "trace w2 = trace ?w1" "t \<le> clock w2"
    using now_frame(1) [of ?w1] now_fst [of ?w1] by simp_all
  from r dl n obtain reuse w3 a3 where
    p: "purge_delay_list_and_reuse_existing_buffer (w2, a\<lparr>now := t\<rparr>) = Returns (reuse, w3, a3)"
    and s: "start_buffer reuse (w3, a3) = Returns (w', a')"
    by (auto simp: recover_def split: outcome.splits)
  from g w2 have "sealed_guarded w2 (a\<lparr>now := t\<rparr>)"
    using sealed_guarded_frame [of w a w2 "a\<lparr>now := t\<rparr>"] by simp
  with p w2 have "sealed_guarded w3 a3 \<and> timeout a3 = timeout a"
    using purge_and_reuse_sealed_guarded [of w2 "a\<lparr>now := t\<rparr>" reuse w3 a3] by simp
  with s show ?thesis using start_buffer_guarded [of w3 a3 reuse w' a'] by simp
qed

lemma buffer_new_frame:
  assumes "buffer_new a w = (res, w')"
  shows "called_at (trace w') = called_at (trace w) \<and> destroyed_at (trace w') = destroyed_at (trace w)"
  using assms
  by (auto simp: buffer_new_def underlying_allocate_def Let_def
      split: list.splits alloc_outcome.splits)

lemma deallocate_body_guarded:
  assumes c: "consistent w a" and g: "guarded w a"
    and called: "requested_by (trace w) (clock w) (p, n)"
    and r: "deallocate_body p n (w, a) = Returns (w', a')"
  shows "guarded w' a' \<and> timeout a' = timeout a"
proof -
  from c obtain b where cur: "current_buffer a = Some b"
    and fits: "current_buffer_size a \<le> length (elements b)"
    and lt: "current_buffer_size a < buffer_capacity a"
    by (auto simp: consistent_iff)
  let ?b1 = "b\<lparr>elements := take (current_buffer_size a) (elements b) @ [(p, n)]\<rparr>"
  let ?a1 = "current_buffer_push_back (p, n) a"
  have a1: "current_buffer ?a1 = Some ?b1" "current_buffer_size ?a1 = current_buffer_size a + 1"
    "buffer_capacity ?a1 = buffer_capacity a" "delay_list ?a1 = delay_list a"
    "timeout ?a1 = timeout a"
    using cur by (simp_all add: current_buffer_push_back_def)
  from g cur have sg: "sealed_guarded w a"
    and old: "\<forall>e \<in> set (take (current_buffer_size a) (elements b)).
                requested_by (trace w) (clock w) e"
    by (simp_all add: guarded_iff)
  with called have all: "\<forall>e \<in> set (elements ?b1). requested_by (trace w) (clock w) e" by auto
  show ?thesis
  proof (cases "current_buffer_full ?a1")
    case False
    with r cur lt have "w' = w" "a' = ?a1"
      by (simp_all add: deallocate_body_def was_moved_from_def current_buffer_full_def Let_def)
    with a1 all sg show ?thesis
      by (auto simp: guarded_iff sealed_guarded_def dest: in_set_takeD)
  next
    case True
    obtain t w1 where n: "TimeoutClock_now w = (t, w1)" by (cases "TimeoutClock_now w")
    have tc: "clock w1 = t" "clock w \<le> t" "trace w1 = trace w"
      using now_fst [of w] now_clock [of w] now_frame(1) [of w] n by simp_all
    let ?a2 = "?a1\<lparr>now := t, current_buffer := None,
                  delay_list := delay_list a @ [?b1\<lparr>timestamp := t\<rparr>]\<rparr>"
    have seal: "seal (w, ?a1) = (w1, ?a2)" using n a1 by (simp add: seal_def)
    have "\<forall>e \<in> set (elements ?b1). requested_by (trace w1) t e"
    proof
      fix e
      assume "e \<in> set (elements ?b1)"
      with all have "requested_by (trace w) (clock w) e" by blast
      then show "requested_by (trace w1) t e"
        by (rule requested_by_mono [where extra = "[]"]) (simp_all add: tc)
    qed
    with sg tc a1 have sg2: "sealed_guarded w1 ?a2"
      by (auto simp: sealed_guarded_def)
    from r cur lt True seal obtain reuse w2 a3 where
      p: "purge_delay_list_and_reuse_existing_buffer (w1, ?a2) = Returns (reuse, w2, a3)"
      by (auto simp: deallocate_body_def was_moved_from_def current_buffer_full_def Let_def
          split: outcome.splits)
    from sg2 p tc have sg3: "sealed_guarded w2 a3" and t3: "timeout a3 = timeout a"
      using purge_and_reuse_sealed_guarded [of w1 ?a2 reuse w2 a3] a1 by simp_all
    show ?thesis
    proof (cases reuse)
      case (Some kept)
      with r cur lt True seal p
      have "start_buffer (Some kept) (w2, a3) = Returns (w', a')"
        by (simp add: deallocate_body_def was_moved_from_def current_buffer_full_def Let_def)
      with sg3 t3 show ?thesis using start_buffer_guarded [of w2 a3 "Some kept" w' a'] by simp
    next
      case None
      obtain res w3 where bn: "buffer_new a3 w2 = (res, w3)" by (cases "buffer_new a3 w2")
      from sg3 buffer_new_frame [OF bn] have sg4: "sealed_guarded w3 a3"
        using sealed_guarded_frame [of w2 a3 w3 a3] by simp
      show ?thesis
      proof (cases res)
        case (Inr fresh)
        with r cur lt True seal p None bn
        have "start_buffer (Some fresh) (w3, a3) = Returns (w', a')"
          by (simp add: deallocate_body_def was_moved_from_def current_buffer_full_def Let_def)
        with sg4 t3 show ?thesis using start_buffer_guarded [of w3 a3 "Some fresh" w' a'] by simp
      next
        case (Inl e)
        with r cur lt True seal p None bn
        have "recover (w3, a3) = Returns (w', a')"
          by (cases e; simp add: deallocate_body_def was_moved_from_def current_buffer_full_def Let_def)
        with sg4 t3 show ?thesis using recover_guarded [of w3 a3 w' a'] by simp
      qed
    qed
  qed
qed


lemma guarded_extend:
  assumes g: "guarded w a" and c: "called_at (trace w') = called_at (trace w) @ extra"
    and d: "destroyed_at (trace w') = destroyed_at (trace w)" and clk: "clock w \<le> clock w'"
  shows "guarded w' a"
proof -
  have mono: "\<And>limit limit' e. requested_by (trace w) limit e \<Longrightarrow> limit \<le> limit'
                 \<Longrightarrow> requested_by (trace w') limit' e"
    using c by (auto simp: requested_by_def)
  from g have "lifetimes_ok (timeout a) (trace w')"
    using lifetimes_ok_extend [of "timeout a" "trace w" "trace w'" extra "[]"] c d
    by (simp add: guarded_def)
  moreover from g have "pending_ok w' a"
    using mono clk unfolding guarded_def pending_ok_def
    by (auto split: option.splits intro: mono [OF _ order_refl])
  ultimately show ?thesis by (simp add: guarded_def)
qed

lemma deallocate_guarded:
  assumes c: "consistent w a" and g: "guarded w a"
    and r: "deallocate p n (w, a) = Returns (w', a')"
  shows "guarded w' a' \<and> timeout a' = timeout a"
proof -
  let ?w0 = "emit (Deallocate_called p n (clock w)) w"
  from c have c0: "consistent ?w0 a" by (simp add: consistent_iff sealed_ok_def)
  from g have g0: "guarded ?w0 a"
    by (rule guarded_extend [where extra = "[((p, n), clock w)]"]) simp_all
  have called: "requested_by (trace ?w0) (clock ?w0) (p, n)"
    by (auto simp: requested_by_def)
  from r have "deallocate_body p n (?w0, a) = Returns (w', a')" by (simp add: deallocate_def)
  with c0 g0 called show ?thesis by (rule deallocate_body_guarded)
qed

lemma purge_sealed_guarded:
  assumes g: "sealed_guarded w a" and r: "purge flavor (w, a) = Returns (w', a')"
  shows "sealed_guarded w' a' \<and> timeout a' = timeout a
       \<and> called_at (trace w') = called_at (trace w) \<and> clock w \<le> clock w'
       \<and> current_buffer a' = current_buffer a \<and> current_buffer_size a' = current_buffer_size a
       \<and> buffer_capacity a' = buffer_capacity a"
proof -
  obtain t w1 where n: "TimeoutClock_now w = (t, w1)" by (cases "TimeoutClock_now w")
  then have w1: "trace w1 = trace w" "t \<le> clock w1" "clock w \<le> clock w1"
    using now_frame(1) [of w] now_fst [of w] now_clock [of w] by simp_all
  from r n obtain t2 rest where
    l: "purge_loop flavor a t (delay_list a) w1 = Returns (t2, rest, w')"
    and a': "a' = a\<lparr>now := t2, delay_list := rest\<rparr>"
    by (auto simp: purge_def split: if_splits outcome.splits)
  from purge_loop_suffix [OF l] obtain purged where
    sfx: "delay_list a = purged @ rest" and clk: "clock w1 \<le> clock w'" by auto
  from purge_loop_not_before_the_deadline [OF l w1(2)] obtain new where
    d: "destroyed_at (trace w') = destroyed_at (trace w1) @ new"
    and b: "\<forall>(e, u) \<in> set new. \<exists>b \<in> set (delay_list a). e \<in> set (elements b)
              \<and> deadline a b \<le> u \<and> (flavor = opportunistic \<longrightarrow> deadline a b < u)"
    by auto
  from b have b': "\<forall>(e, u) \<in> set new. \<exists>b \<in> set (delay_list a). e \<in> set (elements b)
              \<and> deadline a b \<le> u" by fastforce
  have c: "called_at (trace w') = called_at (trace w)"
    using purge_loop_called [OF l] w1 by simp
  from g w1 have "sealed_guarded w1 a" using sealed_guarded_frame [of w a w1 a] by simp
  with c d b' sfx a' w1 have "sealed_guarded w' a'"
    using reclaimed_sealed_guarded [of w1 a w' new a'] by simp
  with a' c clk w1 show ?thesis by simp
qed

lemma purge_guarded:
  assumes g: "guarded w a" and r: "purge flavor (w, a) = Returns (w', a')"
  shows "guarded w' a' \<and> timeout a' = timeout a"
proof -
  from g have sg: "sealed_guarded w a" by (simp add: guarded_iff)
  from purge_sealed_guarded [OF sg r] have p: "sealed_guarded w' a'" "timeout a' = timeout a"
    "called_at (trace w') = called_at (trace w)" "clock w \<le> clock w'"
    "current_buffer a' = current_buffer a" "current_buffer_size a' = current_buffer_size a"
    by simp_all
  have "\<And>e. requested_by (trace w) (clock w) e \<Longrightarrow> requested_by (trace w') (clock w') e"
    using p(3,4) by (auto intro: requested_by_mono [where extra = "[]"])
  with g p show ?thesis by (auto simp: guarded_iff split: option.splits)
qed

lemma perform_guarded:
  assumes "consistent w a" and "guarded w a" and "perform c (w, a) = Returns (w', a')"
  shows "guarded w' a' \<and> timeout a' = timeout a"
proof (cases c)
  case (Allocate n)
  with assms(3) obtain p where "allocate n (w, a) = Returns (p, w', a')"
    by (auto simp: perform_def split: outcome.splits)
  then have "a' = a" "clock w' = clock w" "trace w' = trace w @ [Allocated p n]"
    by (auto simp: allocate_def underlying_allocate_def Let_def
        split: if_splits prod.splits sum.splits list.splits alloc_outcome.splits)
  with assms(2) show ?thesis using guarded_extend [of w a w' "[]"] by simp
next
  case (Construct p)
  with assms(3) have "a' = a" "clock w' = clock w" "trace w' = trace w @ [Constructed p]"
    by (auto simp: perform_def construct_def split: if_splits)
  with assms(2) show ?thesis using guarded_extend [of w a w' "[]"] by simp
next
  case (Destroy p)
  with assms show ?thesis by (auto simp: perform_def destroy_def split: if_splits)
next
  case (Deallocate p n)
  with assms show ?thesis using deallocate_guarded [of w a p n w' a'] by (simp add: perform_def)
next
  case (Purge flavor)
  with assms show ?thesis using purge_guarded [of w a flavor w' a'] by (simp add: perform_def)
next
  case (Wait d)
  with assms(3) have "a' = a" "clock w \<le> clock w'" "trace w' = trace w"
    by (auto simp: perform_def time_passes_def)
  with assms(2) show ?thesis using guarded_extend [of w a w' "[]"] by simp
qed

lemma perform_all_guarded:
  assumes "consistent w a" and "guarded w a" and "perform_all calls (w, a) = Returns (w', a')"
  shows "consistent w' a' \<and> guarded w' a' \<and> timeout a' = timeout a"
  using assms
proof (induction calls arbitrary: w a)
  case Nil
  then show ?case by simp
next
  case (Cons c calls)
  from Cons.prems(3) obtain w1 a1 where p: "perform c (w, a) = Returns (w1, a1)"
    and rest: "perform_all calls (w1, a1) = Returns (w', a')"
    by (auto split: outcome.splits)
  from perform_consistent [OF Cons.prems(1) p] have c1: "consistent w1 a1" by simp
  from perform_guarded [OF Cons.prems(1,2) p] have g1: "guarded w1 a1"
    and t1: "timeout a1 = timeout a" by simp_all
  from Cons.IH [OF c1 g1 rest] t1 show ?case by simp
qed

lemma construct_from_guarded:
  assumes "construct_from underlying tmo delay_buffer_size nothrow w = Returns (w', a)"
    and "destroyed_at (trace w) = []"
  shows "guarded w' a"
proof -
  obtain t w1 where n: "TimeoutClock_now w = (t, w1)" by (cases "TimeoutClock_now w")
  then have "trace w1 = trace w" using now_frame(1) [of w] by simp
  with assms n show ?thesis
    by (auto simp: construct_from_def Let_def guarded_def pending_ok_def lifetimes_ok_def
        buffer_new_def underlying_allocate_def
        split: if_splits prod.splits sum.splits list.splits alloc_outcome.splits)
qed

lemma destructor_lifetimes:
  assumes g: "guarded w a" and r: "destructor (w, a) = Returns w'"
  shows "lifetimes_ok (timeout a) (trace w')"
proof (cases "current_buffer a")
  case None
  with r have "w' = w" by (simp add: destructor_def)
  with g show ?thesis by (simp add: guarded_def)
next
  case (Some b)
  obtain t w1 where n: "TimeoutClock_now w = (t, w1)" by (cases "TimeoutClock_now w")
  then have w1: "trace w1 = trace w" "clock w1 = t" "clock w \<le> t"
    using now_frame(1) [of w] now_fst [of w] now_clock [of w] by simp_all
  let ?stamped = "b\<lparr>timestamp := t\<rparr>"
  let ?a1 = "a\<lparr>current_buffer := Some ?stamped\<rparr>"
  from r Some n obtain w2 a2 where
    p: "purge exhaustive (w1, ?a1) = Returns (w2, a2)"
    by (auto simp: destructor_def Let_def split: outcome.splits)
  from g have "sealed_guarded w a" by (simp add: guarded_iff)
  with w1 have "sealed_guarded w1 ?a1" using sealed_guarded_frame [of w a w1 ?a1] by simp
  from purge_sealed_guarded [OF this p] have sg2: "sealed_guarded w2 a2"
    and a2: "timeout a2 = timeout a" "current_buffer_size a2 = current_buffer_size a"
      "buffer_capacity a2 = buffer_capacity a"
    and c2: "called_at (trace w2) = called_at (trace w)" "t \<le> clock w2"
    using w1 by simp_all
  from sg2 a2 have l2: "lifetimes_ok (timeout a) (trace w2)" by (simp add: sealed_guarded_def)
  show ?thesis
  proof (cases "current_buffer_empty a2")
    case True
    with r Some n p have "w' = buffer_delete a2 ?stamped w2"
      by (auto simp: destructor_def Let_def split: if_splits)
    with l2 show ?thesis
      using lifetimes_ok_extend [of "timeout a" "trace w2" "trace w'" "[]" "[]"] by simp
  next
    case False
    let ?ready = "t + timeout a"
    let ?w3 = "if t \<le> ?ready then sleep_until ?ready w2 else w2"
    let ?elems = "take (current_buffer_size a) (elements b)"
    from r Some n p False a2 have w': "w' = buffer_delete a2 ?stamped (reclaim_buffer_elements ?elems ?w3)"
      by (auto simp: destructor_def Let_def elements_range_def split: if_splits)
    have late: "?ready \<le> clock ?w3"
      using c2(2) sleep_until_clock(2) [of ?ready w2] by auto
    have c3: "called_at (trace ?w3) = called_at (trace w2)"
      "destroyed_at (trace ?w3) = destroyed_at (trace w2)" by simp_all
    let ?new = "map (\<lambda>e. (e, clock ?w3)) ?elems"
    have d: "destroyed_at (trace w') = destroyed_at (trace w2) @ ?new"
      unfolding w' using c3 by (simp add: reclaim_buffer_elements_at del: if_split sleep_until_trace)
       
    have c: "called_at (trace w') = called_at (trace w2) @ []"
      unfolding w' using c3 by (simp del: if_split sleep_until_trace)
    have "\<forall>(e, u) \<in> set ?new. requested_by (trace w2) (u - timeout a) e"
    proof (clarify)
      fix p n u
      assume "((p, n), u) \<in> set ?new"
      then have e: "(p, n) \<in> set ?elems" and u: "u = clock ?w3" by auto
      from g Some e have "requested_by (trace w) (clock w) (p, n)" by (simp add: guarded_iff)
      moreover from late u w1 have "clock w \<le> u - timeout a" by simp
      ultimately show "requested_by (trace w2) (u - timeout a) (p, n)"
        using c2(1) by (auto simp: requested_by_def)
    qed
    with l2 c d show ?thesis by (rule lifetimes_ok_extend)
  qed
qed

section \<open>The claims\<close>




text \<open>
  The two traces in full: \<^verbatim>\<open>purge(exhaustive)\<close> on a sealed buffer, and the destructor
  on an entry of the current buffer.
\<close>

lemma reclaimed_at_the_deadline:
  "(\<exists>w a. (case construct_from () 10 1 True example_world of
             Returns s \<Rightarrow> perform_all [Deallocate 1000 1, Purge exhaustive] s
           | Abrupt x w \<Rightarrow> Abrupt x w) = Returns (w, a)
      \<and> trace w = [Bytes_allocated 1 32, Deallocate_called 1000 1 0, Bytes_allocated 34 32,
                   Slept_until 10 10, Destroyed 1000 1 10, Deallocated 1000 1 10,
                   Bytes_deallocated 1 1])
   \<and> (\<exists>w. (case construct_from () 10 2 True example_world of
             Returns s \<Rightarrow>
               (case perform_all [Deallocate 1000 1] s of
                  Returns s1 \<Rightarrow> destructor s1
                | Abrupt x w \<Rightarrow> Abrupt x w)
           | Abrupt x w \<Rightarrow> Abrupt x w) = Returns w
      \<and> trace w = [Bytes_allocated 1 48, Deallocate_called 1000 1 0, Slept_until 10 10,
                   Destroyed 1000 1 10, Deallocated 1000 1 10, Bytes_deallocated 1 2])"
  by (simp add: run_defs)



text \<open>
  C3. When allocating the replacement of a sealed buffer throws \<^verbatim>\<open>std::bad_alloc\<close>,
  \<^verbatim>\<open>deallocate\<close> sleeps until the oldest deadline, reads the clock and purges again,
  which is meant to give it a buffer to reuse. It does not when the clock then
  shows the deadline itself: the purge asks for \<^verbatim>\<open>now_ > deadline\<close>, returns
  \<^verbatim>\<open>nullptr\<close>, and \<^verbatim>\<open>assert(current_buffer_ != nullptr)\<close> fails. Capacity 1, timeout
  10, an allocator that fails at its second call, and a clock that is never late:
\<close>

theorem recovery_finds_no_buffer_at_the_deadline:
  "(case construct_from () 10 1 True
           (example_world\<lparr>script := [Succeeds, Throws_in_allocate Bad_alloc]\<rparr>) of
      Returns s \<Rightarrow> deallocate 1000 1 s
    | Abrupt x w \<Rightarrow> Abrupt x w)
   = Abrupt Assertion_failure
       (example_world\<lparr>clock := 10, live := [(1, 32)],
          trace := [Bytes_allocated 1 32, Deallocate_called 1000 1 0, Slept_until 10 10]\<rparr>)"
  by (simp add: run_defs)

text \<open>
  When the clock has moved on by the time it is read after the sleep, the same call
  finds the buffer it has just sealed ready, and reuses it.
\<close>

lemma recovery_reuses_the_sealed_buffer_when_late:
  "\<exists>w a. (case construct_from () 10 1 True
                 (example_world\<lparr>script := [Succeeds, Throws_in_allocate Bad_alloc],
                                 delays := [0, 0, 0, 1]\<rparr>) of
             Returns s \<Rightarrow> deallocate 1000 1 s
           | Abrupt x w \<Rightarrow> Abrupt x w) = Returns (w, a)
      \<and> map address (buffers_of a) = [1]
      \<and> current_buffer_size a = 0
      \<and> trace w = [Bytes_allocated 1 32, Deallocate_called 1000 1 0, Slept_until 10 10,
                   Destroyed 1000 1 11, Deallocated 1000 1 11]"
  by (simp add: run_defs buffers_of_def)

text \<open>
  C4. \<^verbatim>\<open>buffer_delete\<close> gives back to the byte allocator the pointer \<^verbatim>\<open>buffer_new\<close>
  got from it, with the same count. The pointer is the same; the count is not:
  \<^verbatim>\<open>buffer_new\<close> asks for \<^verbatim>\<open>sizeof(DelayBuffer) + buffer_capacity_ *
  sizeof(DelayBufferElement)\<close> bytes, \<^verbatim>\<open>buffer_delete\<close> passes \<^verbatim>\<open>buffer_capacity_\<close>.
  An allocator of capacity 100 that is constructed and destroyed allocates 1616
  bytes and deallocates 100.
\<close>

theorem buffer_delete_count_mismatch:
  "(case construct_from () 10 100 True example_world of
      Returns s \<Rightarrow> destructor s
    | Abrupt x w \<Rightarrow> Abrupt x w)
   = Returns (example_world\<lparr>trace := [Bytes_allocated 1 1616, Bytes_deallocated 1 100]\<rparr>)"
  by (simp add: run_defs)

text \<open>The two counts, for any buffer and any world.\<close>

lemma buffer_new_count:
  "buffer_new a w = (Inr b, w') \<Longrightarrow>
     trace w' = trace w
       @ [Bytes_allocated (address b)
            (size_t (sizeof_DelayBuffer w
                     + size_t (buffer_capacity a * sizeof_DelayBufferElement w)))]"
  by (auto simp: buffer_new_def underlying_allocate_def Let_def
      split: list.splits alloc_outcome.splits)

lemma buffer_delete_count:
  "trace (buffer_delete a b w) = trace w @ [Bytes_deallocated (address b) (buffer_capacity a)]"
  by (simp add: buffer_delete_def underlying_deallocate_def)



text \<open>
  C6. \<^verbatim>\<open>purge\<close>, in either mode, leaves the current buffer and its size as they
  are, and the entries it destroys are those of the buffers it took from the head
  of the delay list, no others. With an empty delay list it destroys nothing,
  whatever the current buffer holds.
\<close>

theorem purge_leaves_current_buffer:
  assumes "purge flavor (w, a) = Returns (w', a')"
  shows "current_buffer a' = current_buffer a
       \<and> current_buffer_size a' = current_buffer_size a
       \<and> (\<exists>purged. delay_list a = purged @ delay_list a'
             \<and> destroyed_entries (trace w')
                 = destroyed_entries (trace w)
                   @ concat (map (\<lambda>b. take (buffer_capacity a) (elements b)) purged))"
proof -
  obtain t w1 where n: "TimeoutClock_now w = (t, w1)" by (cases "TimeoutClock_now w")
  then have tr: "trace w1 = trace w" using now_frame(1) [of w] by simp
  from assms n obtain t2 rest where
    l: "purge_loop flavor a t (delay_list a) w1 = Returns (t2, rest, w')"
    and a': "a' = a\<lparr>now := t2, delay_list := rest\<rparr>"
    by (auto simp: purge_def split: if_splits outcome.splits)
  from purge_loop_purged [OF l] tr a' show ?thesis by simp
qed

theorem purge_leaves_current_buffer_witness:
  "\<exists>w' a'. purge opportunistic one_unsealed_entry = Returns (w', a')
      \<and> current_buffer a' = Some \<lparr>address = 1, timestamp = 0, elements = [(1000, 1)]\<rparr>
      \<and> current_buffer_size a' = 1
      \<and> destroyed_entries (trace w') = []"
proof -
  obtain w' a' where
    r: "purge opportunistic (fst one_unsealed_entry, snd one_unsealed_entry) = Returns (w', a')"
    by (simp add: run_defs one_unsealed_entry_def)
  from purge_leaves_current_buffer [OF r] r show ?thesis
    by (simp add: one_unsealed_entry_def)
qed

text \<open>
  C7. A copy-constructed allocator (the copy constructor is the converting one at
  the identity) has an empty delay list and a current buffer of
  size 0 that was allocated for it: a buffer with no entry, at a block that was not
  live before, hence none of the source's buffers, whose blocks are all live. The
  copy takes the underlying allocator, the timeout and the capacity. The source is
  only read; in the world, the copy adds one block and one event and touches
  nothing else.
\<close>

theorem copy_shares_nothing:
  assumes "converting_copy_construct convert nothrow other w = Returns (w', a)"
    and "list_all (\<lambda>b. address b \<in> fst ` set (live w)) (buffers_of other)"
  shows "delay_list a = [] \<and> current_buffer_size a = 0
       \<and> allocator a = convert (allocator other) \<and> timeout a = timeout other
       \<and> buffer_capacity a = buffer_capacity other
       \<and> (\<exists>b count. current_buffer a = Some b \<and> elements b = []
             \<and> address b \<notin> address ` set (buffers_of other)
             \<and> live w' = (address b, count) # live w
             \<and> trace w' = trace w @ [Bytes_allocated (address b) count])"
proof -
  obtain t w1 where n: "TimeoutClock_now w = (t, w1)" by (cases "TimeoutClock_now w")
  then have fr: "live w1 = live w" "trace w1 = trace w"
    using now_frame(1,2) [of w] by simp_all
  then have "fresh_address w1 \<notin> fst ` set (live w)"
    using fresh_address_not_live [of w1] by simp
  with assms(2) have "fresh_address w1 \<notin> address ` set (buffers_of other)"
    by (auto simp: list_all_iff)
  with assms(1) n fr show ?thesis
    by (auto simp: converting_copy_construct_def buffer_new_def underlying_allocate_def Let_def
        split: prod.splits sum.splits list.splits alloc_outcome.splits)
qed

theorem copy_shares_nothing_witness:
  "\<exists>w' a. copy_construct (snd two_sealed_buffers) (fst two_sealed_buffers) = Returns (w', a)
      \<and> delay_list a = [] \<and> current_buffer_size a = 0
      \<and> (\<exists>b. current_buffer a = Some b \<and> elements b = [] \<and> address b \<notin> {67, 1, 34})"
proof -
  obtain w' a where
    h1: "copy_construct (snd two_sealed_buffers) (fst two_sealed_buffers) = Returns (w', a)"
    by (simp add: run_defs two_sealed_buffers_def)
  have h2: "list_all (\<lambda>b. address b \<in> fst ` set (live (fst two_sealed_buffers)))
              (buffers_of (snd two_sealed_buffers))"
    by (simp add: buffers_of_def two_sealed_buffers_def)
  from copy_shares_nothing [OF h1 [unfolded copy_construct_def] h2] h1 show ?thesis
    by (auto simp: buffers_of_def two_sealed_buffers_def)
qed

text \<open>
  C8. Two allocators are equal exactly when their underlying allocators are equal
  and their timeouts (the members, which hold the constructor's argument after the
  cast to the clock's duration) are equal; \<^verbatim>\<open>!=\<close> is the negation; the capacity of
  the delay buffer plays no part.
\<close>

theorem equality_ignores_capacity:
  "equal_to underlying_equal a b
     = (underlying_equal (allocator a) (allocator b) \<and> timeout a = timeout b)
   \<and> not_equal_to underlying_equal a b = (\<not> equal_to underlying_equal a b)
   \<and> equal_to underlying_equal (a\<lparr>buffer_capacity := c\<rparr>) (b\<lparr>buffer_capacity := d\<rparr>)
     = equal_to underlying_equal a b"
  by (auto simp: equal_to_def not_equal_to_def)

text \<open>
  C9. The destructor of an allocator that was not moved from, with an empty delay
  list and an empty current buffer, destroys no entry, deallocates no entry and
  does not sleep: all it adds to the trace is the deallocation of the current
  buffer's storage.
\<close>

theorem destructor_of_empty_allocator:
  assumes "current_buffer a = Some b" and "delay_list a = []" and "current_buffer_size a = 0"
  shows "\<exists>w'. destructor (w, a) = Returns w'
           \<and> trace w' = trace w @ [Bytes_deallocated (address b) (buffer_capacity a)]"
proof -
  obtain t w1 where n1: "TimeoutClock_now w = (t, w1)" by (cases "TimeoutClock_now w")
  obtain t2 w2 where n2: "TimeoutClock_now w1 = (t2, w2)" by (cases "TimeoutClock_now w1")
  have "trace w1 = trace w" using now_frame(1) [of w] n1 by simp
  moreover have "trace w2 = trace w1" using now_frame(1) [of w1] n2 by simp
  ultimately show ?thesis using assms n1 n2
    by (simp add: destructor_def purge_def was_moved_from_def current_buffer_empty_def
        buffer_delete_def underlying_deallocate_def)
qed

theorem destructor_of_empty_allocator_witness:
  "\<exists>w'. destructor (example_world,
            \<lparr>allocator = (), timeout = 10, now = 0, buffer_allocator = (), buffer_capacity = 100,
             current_buffer_size = 0,
             current_buffer = Some \<lparr>address = 1, timestamp = 0, elements = []\<rparr>,
             delay_list = [], nothrow_destructible = True\<rparr>) = Returns w'
      \<and> trace w' = [Bytes_deallocated 1 100]"
  using destructor_of_empty_allocator [of
            "\<lparr>allocator = (), timeout = 10, now = 0, buffer_allocator = (), buffer_capacity = 100,
             current_buffer_size = 0,
             current_buffer = Some \<lparr>address = 1, timestamp = 0, elements = []\<rparr>,
             delay_list = [], nothrow_destructible = True\<rparr>"
            "\<lparr>address = 1, timestamp = 0, elements = []\<rparr>" example_world]
  by (simp add: example_world_def)

text \<open>
  C10. Only \<^verbatim>\<open>std::bad_alloc\<close> starts the recovery in \<^verbatim>\<open>deallocate\<close>. When the
  current buffer becomes full, nothing on the delay list is ready, and the byte
  allocator throws something else, the exception leaves \<^verbatim>\<open>deallocate\<close> (which ends
  in \<^verbatim>\<open>std::terminate\<close> when \<^verbatim>\<open>value_type\<close> is nothrow-destructible, \<^verbatim>\<open>deallocate\<close>
  being \<^verbatim>\<open>noexcept\<close> then): nothing was slept, the clock was read once, for the
  sealing, and the trace has gained the call itself and nothing else.
\<close>

theorem other_exception_is_not_recovered:
  assumes cur: "current_buffer a = Some b"
    and full: "current_buffer_size a + 1 = buffer_capacity a"
    and young: "case delay_list a of
                  [] \<Rightarrow> 0 \<le> timeout a
                | oldest # rest \<Rightarrow> fst (TimeoutClock_now w) \<le> timestamp oldest + timeout a"
    and throws: "script w = Throws_in_allocate Other_exception # later"
  shows "\<exists>w'. deallocate p n (w, a)
                = Abrupt (if nothrow_destructible a then Terminate else Throws Other_exception) w'
           \<and> trace w' = trace w @ [Deallocate_called p n (clock w)]
           \<and> clock w' = fst (TimeoutClock_now w)"
proof -
  let ?w0 = "emit (Deallocate_called p n (clock w)) w"
  let ?a1 = "current_buffer_push_back (p, n) a"
  let ?b1 = "b\<lparr>elements := take (current_buffer_size a) (elements b) @ [(p, n)]\<rparr>"
  obtain t w1 where n: "TimeoutClock_now ?w0 = (t, w1)" by (cases "TimeoutClock_now ?w0")
  have t: "t = fst (TimeoutClock_now w)" "clock w1 = t"
    and w1: "trace w1 = trace ?w0" "script w1 = script w"
    using n now_fst [of ?w0] now_frame(1,3) [of ?w0]
    by (simp_all add: TimeoutClock_now_def emit_def split: list.splits)
  let ?sealed = "?b1\<lparr>timestamp := t\<rparr>"
  let ?a2 = "?a1\<lparr>now := t, current_buffer := None, delay_list := delay_list a @ [?sealed]\<rparr>"
  have seal: "seal (?w0, ?a1) = (w1, ?a2)"
    using n cur by (simp add: seal_def current_buffer_push_back_def)
  obtain oldest rest where dl: "delay_list ?a2 = oldest # rest"
    and yo: "now ?a2 \<le> timestamp oldest + timeout ?a2"
  proof (cases "delay_list a")
    case Nil
    with young have "now ?a2 \<le> timestamp ?sealed + timeout ?a2"
      by (simp add: current_buffer_push_back_def)
    moreover from Nil have "delay_list ?a2 = ?sealed # []" by simp
    ultimately show ?thesis using that by blast
  next
    case (Cons x xs)
    with young t have "now ?a2 \<le> timestamp x + timeout ?a2"
      by (simp add: current_buffer_push_back_def)
    moreover from Cons have "delay_list ?a2 = x # (xs @ [?sealed])" by simp
    ultimately show ?thesis using that by blast
  qed
  have purge: "purge_delay_list_and_reuse_existing_buffer (w1, ?a2) = Returns (None, w1, ?a2)"
    using yo dl by (rule purge_and_reuse_not_ready)
  have new: "buffer_new ?a2 w1 = (Inl Other_exception, w1\<lparr>script := later\<rparr>)"
    using throws w1 by (simp add: buffer_new_def underlying_allocate_def Let_def)
  have body: "deallocate_body p n (?w0, a)
                = Abrupt (Throws Other_exception) (w1\<lparr>script := later\<rparr>)"
    using cur full seal purge new
    by (simp add: deallocate_body_def was_moved_from_def current_buffer_full_def Let_def
        current_buffer_push_back_def)
  then have "deallocate p n (w, a)
      = Abrupt (if nothrow_destructible a then Terminate else Throws Other_exception)
          (w1\<lparr>script := later\<rparr>)"
    by (simp add: deallocate_def noexcept_def)
  with t w1 show ?thesis by simp
qed

theorem other_exception_is_not_recovered_witness:
  "\<exists>w'. deallocate 1000 1
           (fst just_constructed\<lparr>script := [Throws_in_allocate Other_exception]\<rparr>,
            snd just_constructed)
         = Abrupt Terminate w'
      \<and> trace w' = [Bytes_allocated 1 32, Deallocate_called 1000 1 0]
      \<and> clock w' = 0"
proof -
  let ?w = "fst just_constructed\<lparr>script := [Throws_in_allocate Other_exception]\<rparr>"
  let ?a = "snd just_constructed"
  have h1: "current_buffer ?a = Some \<lparr>address = 1, timestamp = 0, elements = []\<rparr>"
    and h2: "current_buffer_size ?a + 1 = buffer_capacity ?a"
    and h3: "case delay_list ?a of
               [] \<Rightarrow> 0 \<le> timeout ?a
             | oldest # rest \<Rightarrow> fst (TimeoutClock_now ?w) \<le> timestamp oldest + timeout ?a"
    and h4: "script ?w = Throws_in_allocate Other_exception # []"
    by (simp_all add: just_constructed_def)
  from other_exception_is_not_recovered [OF h1 h2 h3 h4, of 1000 1] show ?thesis
    by (simp add: just_constructed_def TimeoutClock_now_def)
qed

end
